theory Spec2Isabelle
  imports Complex_Main "HOL-Library.Multiset" "HOL-Library.Log_Nat"
    "HOL-Library.Char_ord" "HOL-Library.List_Lexorder"
begin

section \<open>Tournament planner: capacity calculation and fixture generation\<close>

text \<open>
  A shallow embedding of \<^verbatim>\<open>backend/internal/services/tournament_service.go\<close>.
  Go's \<^verbatim>\<open>int\<close> is modelled by \<^typ>\<open>int\<close> (list lengths and loop counters by
  \<^typ>\<open>nat\<close>); the 64-bit wrap-around is not modelled, so every statement below is about
  inputs whose intermediate values stay inside the 64-bit range. A slice of pointers is a
  list of records: the repository hands out one object per row, so no two entries alias.
  Fields that no function below reads or writes (timestamps, contact data, scores) are
  left out of the records.
\<close>

subsection \<open>Data model\<close>

record DayHours =
  StartTime :: string
  EndTime :: string

text \<open>\<^verbatim>\<open>OperationalHours\<close> is a Go map from weekday name to \<^verbatim>\<open>DayHours\<close>; the code only
  ranges over it, so it is the list of its entries.\<close>

type_synonym OperationalHours = "(string \<times> DayHours) list"

record FormatConfig =
  NumberOfGroups :: int
  GroupSize :: int
  NumberOfRounds :: int

type_synonym TournamentFormat = string

definition FormatSingleElimination :: TournamentFormat where
  "FormatSingleElimination = ''single_elimination''"
definition FormatDoubleElimination :: TournamentFormat where
  "FormatDoubleElimination = ''double_elimination''"
definition FormatRoundRobin :: TournamentFormat where
  "FormatRoundRobin = ''round_robin''"
definition FormatSwiss :: TournamentFormat where
  "FormatSwiss = ''swiss''"
definition FormatGroupToKnockout :: TournamentFormat where
  "FormatGroupToKnockout = ''group_to_knockout''"

type_synonym TournamentStatus = string

definition StatusDraft :: TournamentStatus where
  "StatusDraft = ''draft''"
definition StatusRegistrationClosed :: TournamentStatus where
  "StatusRegistrationClosed = ''registration_closed''"
definition StatusInProgress :: TournamentStatus where
  "StatusInProgress = ''in_progress''"

definition MatchPending :: string where
  "MatchPending = ''pending''"

record CreateVenueRequest =
  v_Name :: string
  v_Type :: string

text \<open>Instants of \<^verbatim>\<open>time.Time\<close> are nanoseconds on the time line.\<close>

record CreateTournamentRequest =
  req_Name :: string
  req_FormatType :: TournamentFormat
  req_FormatConfig :: "FormatConfig option"
  req_StartDate :: int
  req_EndDate :: int
  req_MaxMatchesPerDay :: int
  req_OperationalHours :: OperationalHours
  req_AvgMatchDuration :: int
  req_BufferTime :: int
  req_Venues :: "CreateVenueRequest list"

record Tournament =
  t_ID :: string
  t_OrganizerID :: string
  t_Name :: string
  t_FormatType :: TournamentFormat
  t_FormatConfig :: "FormatConfig option"
  t_StartDate :: int
  t_EndDate :: int
  t_MaxMatchesPerDay :: int
  t_OperationalHours :: OperationalHours
  t_AvgMatchDuration :: int
  t_BufferTime :: int
  t_CapacityLimit :: int
  t_CurrentParticipants :: int
  t_Status :: TournamentStatus
  t_IsPublic :: bool

record Participant =
  p_ID :: string
  p_Name :: string
  p_Seed :: "int option"

record Match =
  m_ID :: string
  m_TournamentID :: string
  m_RoundNumber :: int
  m_MatchNumber :: int
  m_Stage :: string
  m_Participant1ID :: "string option"
  m_Participant2ID :: "string option"
  m_Status :: string
  m_NextMatchID :: "string option"

record SeedingData =
  sd_ParticipantID :: string
  sd_Seed :: int

text \<open>
  The failures of the service. \<open>ConstraintsTooRestrictive\<close> is the error that
  \<^verbatim>\<open>Create\<close> builds with \<^verbatim>\<open>fmt.Errorf\<close> (the specification's InvalidConstraints),
  \<open>Persistence\<close> any error of the repositories or the transaction; the two panics
  are run-time panics of Go and \<open>NoReturn\<close> is a call that recurses without end: all
  three return nothing to the caller.
\<close>

datatype error =
    ConstraintsTooRestrictive
  | ErrInsufficientParticipants
  | ErrCapacityExceeded nat int
  | NotRegistrationClosed
  | UnsupportedFormat string
  | Persistence string
  | PanicDivideByZero
  | PanicMakeSlice
  | NoReturn

subsection \<open>Integer division as Go computes it\<close>

text \<open>Go's \<^verbatim>\<open>/\<close> on integers truncates towards zero; the divisor is never zero where
  this function is used without a guard.\<close>

definition go_quot :: "int \<Rightarrow> int \<Rightarrow> int" where
  "go_quot a b = sgn a * sgn b * (\<bar>a\<bar> div \<bar>b\<bar>)"

subsection \<open>Bracket positions\<close>

text \<open>
  The loop of \<^verbatim>\<open>createBracketPositions\<close>: \<^verbatim>\<open>positions\<close> starts as \<^verbatim>\<open>size\<close> zeros and
  the loop writes slots \<^verbatim>\<open>2i\<close> and \<^verbatim>\<open>2i+1\<close> for \<^verbatim>\<open>i < half\<close>. Reading
  \<^verbatim>\<open>left[i]\<close> or \<^verbatim>\<open>right[half-1-i]\<close> out of range panics, and so does \<^verbatim>\<open>make\<close> with a
  negative length: no slice is returned then (\<open>None\<close>).
\<close>

definition interleave_step :: "nat \<Rightarrow> int list \<Rightarrow> int list \<Rightarrow> nat \<Rightarrow> int list \<Rightarrow> int list" where
  "interleave_step half left right i positions =
     (positions[i * 2 := left ! i])[i * 2 + 1 := right ! (half - 1 - i) + int half]"

definition interleave :: "int \<Rightarrow> int \<Rightarrow> int list \<Rightarrow> int list \<Rightarrow> int list option" where
  "interleave sz half left right =
     (if sz < 0 \<or> length left < nat half \<or> length right < nat half then None
      else Some (fold (interleave_step (nat half) left right) [0..<nat half]
                   (replicate (nat sz) 0)))"

text \<open>The recursion of \<^verbatim>\<open>createBracketPositions\<close> has no guard on \<^verbatim>\<open>size\<close>, so it need
  not terminate: \<open>None\<close> is the call that never returns a slice.\<close>

partial_function (option) createBracketPositions :: "int \<Rightarrow> int list option" where
  "createBracketPositions sz =
     (if sz = 2 then Some [0, 1]
      else Option.bind (createBracketPositions (go_quot sz 2)) (\<lambda>left.
           Option.bind (createBracketPositions (go_quot sz 2)) (\<lambda>right.
           interleave sz (go_quot sz 2) left right)))"

declare createBracketPositions.simps [code]

subsection \<open>Capacity calculation\<close>

text \<open>
  \<^verbatim>\<open>calculateTournamentDays\<close> is \<^verbatim>\<open>int(end.Sub(start).Hours()/24) + 1\<close>. \<^verbatim>\<open>Sub\<close>
  saturates at the range of \<^verbatim>\<open>time.Duration\<close> (an int64 of nanoseconds), and \<^verbatim>\<open>int\<close>
  truncates towards zero. The quotient is taken exactly: the rounding of the float64
  division is not modelled.
\<close>

definition time_Sub :: "int \<Rightarrow> int \<Rightarrow> int" where
  "time_Sub t u = max (- (2 ^ 63)) (min (2 ^ 63 - 1) (t - u))"

definition calculateTournamentDays :: "int \<Rightarrow> int \<Rightarrow> int" where
  "calculateTournamentDays start end = go_quot (time_Sub end start) (24 * 3600 * 1000000000) + 1"

text \<open>
  \<^verbatim>\<open>time.Parse("15:04", s)\<close> of Go's standard library: an hour of one or two digits below
  24, a colon, a minute of exactly two digits below 60, and nothing after it. The code
  ignores the error, and then holds the zero \<^verbatim>\<open>time.Time\<close> (1 January of year 1), while
  a parsed clock time lies on 1 January of year 0, a leap year: in minutes since
  midnight of that day a failed parse is \<open>366 * 24 * 60\<close>.
\<close>

definition isDigit :: "char \<Rightarrow> bool" where
  "isDigit c = (48 \<le> (of_char c :: nat) \<and> (of_char c :: nat) \<le> 57)"

definition digit :: "char \<Rightarrow> nat" where
  "digit c = of_char c - 48"

fun getnum :: "string \<Rightarrow> bool \<Rightarrow> (nat \<times> string) option" where
  "getnum [] fixed = None"
| "getnum [c] fixed = (if \<not> isDigit c \<or> fixed then None else Some (digit c, []))"
| "getnum (c # d # rest) fixed =
     (if \<not> isDigit c then None
      else if \<not> isDigit d then (if fixed then None else Some (digit c, d # rest))
      else Some (digit c * 10 + digit d, rest))"

definition parseClock :: "string \<Rightarrow> nat option" where
  "parseClock s =
     (case getnum s False of
        None \<Rightarrow> None
      | Some (hour, s1) \<Rightarrow>
          if 24 \<le> hour then None
          else (case s1 of
                  [] \<Rightarrow> None
                | c # s2 \<Rightarrow>
                    if c \<noteq> CHR '':'' then None
                    else (case getnum s2 True of
                            None \<Rightarrow> None
                          | Some (minute, s3) \<Rightarrow>
                              if 60 \<le> minute \<or> s3 \<noteq> [] then None
                              else Some (hour * 60 + minute))))"

definition clockMinutes :: "string \<Rightarrow> int" where
  "clockMinutes s = (case parseClock s of Some m \<Rightarrow> int m | None \<Rightarrow> 366 * 24 * 60)"

definition dailyStep :: "DayHours \<Rightarrow> int \<times> int \<Rightarrow> int \<times> int" where
  "dailyStep dayHours acc =
     (let startTime = clockMinutes (StartTime dayHours);
          endTime = clockMinutes (EndTime dayHours);
          dailyMinutes = endTime - startTime
      in if dailyMinutes > 0 then (fst acc + dailyMinutes, snd acc + 1) else acc)"

definition calculateDailyOperationalMinutes :: "OperationalHours \<Rightarrow> int" where
  "calculateDailyOperationalMinutes hours =
     (let (totalMinutes, daysCount) = fold dailyStep (map snd hours) (0, 0)
      in if daysCount = 0 then 0 else go_quot totalMinutes daysCount)"

text \<open>
  The first half of \<^verbatim>\<open>calculateTournamentCapacity\<close>: the value of the local variable
  \<^verbatim>\<open>totalMatchSlots\<close> when the format switch is reached. The division panics when
  \<^verbatim>\<open>AvgMatchDuration + BufferTime\<close> is zero.
\<close>

definition matchesPerVenuePerDay :: "CreateTournamentRequest \<Rightarrow> int" where
  "matchesPerVenuePerDay req =
     go_quot (calculateDailyOperationalMinutes (req_OperationalHours req))
       (req_AvgMatchDuration req + req_BufferTime req)"

definition totalMatchSlots :: "CreateTournamentRequest \<Rightarrow> error + int" where
  "totalMatchSlots req =
     (let days = calculateTournamentDays (req_StartDate req) (req_EndDate req);
          totalMatchSlots = req_MaxMatchesPerDay req * days
      in if req_AvgMatchDuration req + req_BufferTime req = 0 then Inl PanicDivideByZero
         else let totalVenueCapacity =
                    matchesPerVenuePerDay req * int (length (req_Venues req)) * days
              in Inr (if totalVenueCapacity < totalMatchSlots then totalVenueCapacity
                      else totalMatchSlots))"

text \<open>
  Two branches of the format switch compute in float64. They are parameters of the
  model, so that nothing below depends on how a float64 rounds: \<open>rrRoot slots\<close> stands for
  \<^verbatim>\<open>int((1 + math.Sqrt(1 + 8*float64(slots))) / 2)\<close> and \<open>scale total slots required\<close> for
  \<^verbatim>\<open>int(float64(total) * (float64(slots) / float64(required)))\<close>.
\<close>

record Float64Ops =
  rrRoot :: "int \<Rightarrow> int"
  scale :: "int \<Rightarrow> int \<Rightarrow> int \<Rightarrow> int"

definition formatCapacity :: "Float64Ops \<Rightarrow> CreateTournamentRequest \<Rightarrow> int \<Rightarrow> int" where
  "formatCapacity fp req slots =
     (if req_FormatType req = FormatSingleElimination then slots + 1
      else if req_FormatType req = FormatDoubleElimination then go_quot (slots + 2) 2
      else if req_FormatType req = FormatRoundRobin then
        (let capacity = rrRoot fp slots
         in if go_quot (capacity * (capacity - 1)) 2 > slots then capacity - 1 else capacity)
      else if req_FormatType req = FormatGroupToKnockout then
        (case req_FormatConfig req of
           None \<Rightarrow> go_quot slots 3
         | Some cfg \<Rightarrow>
             if GroupSize cfg > 0 \<and> NumberOfGroups cfg > 0 then
               (let groupSize = GroupSize cfg;
                    numGroups = NumberOfGroups cfg;
                    matchesPerGroup = go_quot (groupSize * (groupSize - 1)) 2;
                    groupStageMatches = numGroups * matchesPerGroup;
                    knockoutTeams = numGroups * 2;
                    knockoutMatches = knockoutTeams - 1;
                    totalRequired = groupStageMatches + knockoutMatches
                in if totalRequired \<le> slots then numGroups * groupSize
                   else scale fp (numGroups * groupSize) slots totalRequired)
             else go_quot slots 3)
      else if req_FormatType req = FormatSwiss then
        (let rounds = (case req_FormatConfig req of
                         None \<Rightarrow> 5
                       | Some cfg \<Rightarrow> if NumberOfRounds cfg > 0 then NumberOfRounds cfg else 5)
         in go_quot (slots * 2) rounds)
      else go_quot slots 3)"

definition calculateTournamentCapacity :: "Float64Ops \<Rightarrow> CreateTournamentRequest \<Rightarrow> error + int" where
  "calculateTournamentCapacity fp req =
     (case totalMatchSlots req of
        Inl e \<Rightarrow> Inl e
      | Inr slots \<Rightarrow> Inr (formatCapacity fp req slots))"

text \<open>
  \<^verbatim>\<open>Create\<close>. The identifier of the new tournament and the outcome of steps 4 to 7 (the
  transaction that stores the tournament and its venues) come from outside the service:
  \<open>store\<close> is \<open>None\<close> when the transaction commits.
\<close>

definition Create ::
  "Float64Ops \<Rightarrow> string \<Rightarrow> (Tournament \<Rightarrow> CreateVenueRequest list \<Rightarrow> string option) \<Rightarrow>
   string \<Rightarrow> CreateTournamentRequest \<Rightarrow> error + Tournament" where
  "Create fp newID store organizerID req =
     (case calculateTournamentCapacity fp req of
        Inl e \<Rightarrow> Inl e
      | Inr capacity \<Rightarrow>
          if capacity < 2 then Inl ConstraintsTooRestrictive
          else let tournament =
                 \<lparr> t_ID = newID, t_OrganizerID = organizerID, t_Name = req_Name req,
                   t_FormatType = req_FormatType req, t_FormatConfig = req_FormatConfig req,
                   t_StartDate = req_StartDate req, t_EndDate = req_EndDate req,
                   t_MaxMatchesPerDay = req_MaxMatchesPerDay req,
                   t_OperationalHours = req_OperationalHours req,
                   t_AvgMatchDuration = req_AvgMatchDuration req,
                   t_BufferTime = req_BufferTime req, t_CapacityLimit = capacity,
                   t_CurrentParticipants = 0, t_Status = StatusDraft, t_IsPublic = False \<rparr>
               in (case store tournament (req_Venues req) of
                     Some msg \<Rightarrow> Inl (Persistence msg)
                   | None \<Rightarrow> Inr tournament))"

subsection \<open>Seeding\<close>

definition seedMap :: "SeedingData list \<Rightarrow> (string \<rightharpoonup> int)" where
  "seedMap data = fold (\<lambda>sd m. m(sd_ParticipantID sd \<mapsto> sd_Seed sd)) data Map.empty"

text \<open>The comparison function handed to \<^verbatim>\<open>sort.Slice\<close> for manual seeding; Go compares
  strings byte by byte, as the lexicographic order on \<^typ>\<open>string\<close> does.\<close>

definition manualLess :: "(string \<rightharpoonup> int) \<Rightarrow> Participant \<Rightarrow> Participant \<Rightarrow> bool" where
  "manualLess seeds a b =
     (case (seeds (p_ID a), seeds (p_ID b)) of
        (Some seedI, Some seedJ) \<Rightarrow> seedI < seedJ
      | (Some seedI, None) \<Rightarrow> True
      | (None, Some seedJ) \<Rightarrow> False
      | (None, None) \<Rightarrow> p_Name a < p_Name b)"

definition nameLess :: "Participant \<Rightarrow> Participant \<Rightarrow> bool" where
  "nameLess a b = (p_Name a < p_Name b)"

text \<open>The loop \<^verbatim>\<open>for i, p := range participants { seed := i + 1; p.Seed = &seed }\<close>.\<close>

definition assignSeeds :: "Participant list \<Rightarrow> Participant list" where
  "assignSeeds participants =
     map (\<lambda>(i, p). p\<lparr>p_Seed := Some (int i + 1)\<rparr>) (enumerate 0 participants)"

text \<open>
  \<^verbatim>\<open>utils.RandomInt(max)\<close> draws from \<^verbatim>\<open>crypto/rand\<close> a number between 0 and \<^verbatim>\<open>max - 1\<close>:
  it is the residue of the entropy \<open>r\<close> read for that call (\<open>bound\<close> is \<^verbatim>\<open>max\<close>). In the shuffle the call of
  iteration \<open>i\<close> reads \<open>entropy i\<close>.
\<close>

definition RandomInt :: "nat \<Rightarrow> nat \<Rightarrow> nat" where
  "RandomInt r bound = r mod bound"

definition shuffleStep :: "(nat \<Rightarrow> nat) \<Rightarrow> nat \<Rightarrow> Participant list \<Rightarrow> Participant list" where
  "shuffleStep entropy i participants =
     (let j = RandomInt (entropy i) (i + 1)
      in participants[i := participants ! j, j := participants ! i])"

definition shuffle :: "(nat \<Rightarrow> nat) \<Rightarrow> Participant list \<Rightarrow> Participant list" where
  "shuffle entropy participants =
     fold (shuffleStep entropy) (rev [1..<length participants]) participants"

text \<open>
  \<^verbatim>\<open>sort.Slice\<close> belongs to Go's standard library and is not stable; it is the parameter
  \<open>sortSlice\<close>. What the library promises for a comparison that is a strict weak order
  is \<open>sortSliceContract\<close>: the result is a rearrangement of the input in which no later
  element is less than an earlier one.
\<close>

type_synonym SortSlice =
  "(Participant \<Rightarrow> Participant \<Rightarrow> bool) \<Rightarrow> Participant list \<Rightarrow> Participant list"

definition sortSliceContract ::
  "(Participant \<Rightarrow> Participant \<Rightarrow> bool) \<Rightarrow> Participant list \<Rightarrow> Participant list \<Rightarrow> bool" where
  "sortSliceContract lt input output =
     (mset output = mset input \<and> sorted_wrt (\<lambda>a b. \<not> lt b a) output)"

definition applySeedingMethod ::
  "SortSlice \<Rightarrow> (nat \<Rightarrow> nat) \<Rightarrow> Participant list \<Rightarrow> string \<Rightarrow> SeedingData list \<Rightarrow>
   Participant list" where
  "applySeedingMethod sortSlice entropy participants method data =
     (if method = ''manual'' then
        assignSeeds (sortSlice (manualLess (seedMap data)) participants)
      else if method = ''random'' then
        assignSeeds (shuffle entropy participants)
      else if method = ''skill'' then
        assignSeeds (sortSlice nameLess participants)
      else participants)"

subsection \<open>Progression links\<close>

text \<open>
  \<^verbatim>\<open>linkBracketProgression\<close> works on pointers into the slice \<^verbatim>\<open>matches\<close>: a pointer is
  the index of its match. \<^verbatim>\<open>matchesByRound[r]\<close> lists the matches of round \<open>r\<close> in
  slice order.
\<close>

definition matchesByRound :: "Match list \<Rightarrow> int \<Rightarrow> nat list" where
  "matchesByRound matches r =
     filter (\<lambda>k. m_RoundNumber (matches ! k) = r) [0..<length matches]"

definition setNext :: "nat \<Rightarrow> nat \<Rightarrow> Match list \<Rightarrow> Match list" where
  "setNext src tgt matches =
     matches[src := (matches ! src)\<lparr>m_NextMatchID := Some (m_ID (matches ! tgt))\<rparr>]"

text \<open>One iteration of the inner loop, for the even index \<open>i\<close>.\<close>

definition linkStep :: "nat list \<Rightarrow> nat list \<Rightarrow> nat \<Rightarrow> Match list \<Rightarrow> Match list" where
  "linkStep currentRoundMatches nextRoundMatches i matches =
     (let nextMatchIndex = i div 2
      in if nextMatchIndex < length nextRoundMatches then
           (let matches1 = setNext (currentRoundMatches ! i) (nextRoundMatches ! nextMatchIndex) matches
            in if i + 1 < length currentRoundMatches then
                 setNext (currentRoundMatches ! (i + 1)) (nextRoundMatches ! nextMatchIndex) matches1
               else matches1)
         else matches)"

text \<open>The inner loop \<^verbatim>\<open>for i := 0; i < len(currentRoundMatches); i += 2\<close> visits the even
  indices below the length.\<close>

definition linkRound :: "nat list \<Rightarrow> nat list \<Rightarrow> Match list \<Rightarrow> Match list" where
  "linkRound currentRoundMatches nextRoundMatches matches =
     fold (linkStep currentRoundMatches nextRoundMatches)
       (map (\<lambda>k. 2 * k) [0..<(length currentRoundMatches + 1) div 2]) matches"

definition linkBracketProgression :: "Match list \<Rightarrow> nat \<Rightarrow> Match list" where
  "linkBracketProgression matches rounds =
     fold (\<lambda>roundNo. linkRound (matchesByRound matches (int roundNo))
                       (matchesByRound matches (int roundNo + 1)))
       [1..<rounds] matches"

subsection \<open>Fixture generators\<close>

text \<open>
  \<^verbatim>\<open>utils.GenerateUUID\<close> is called once for every match, just before the match is
  appended: \<open>uuid k\<close> is the identifier that the call for the match at index \<open>k\<close> of
  \<^verbatim>\<open>fixtures\<close> returns.
\<close>

definition placeParticipants :: "Participant list \<Rightarrow> (int \<rightharpoonup> Participant)" where
  "placeParticipants participants =
     fold (\<lambda>(i, p) m. case p_Seed p of Some seed \<Rightarrow> m(seed - 1 \<mapsto> p) | None \<Rightarrow> m(int i \<mapsto> p))
       (enumerate 0 participants) Map.empty"

definition slotID :: "(int \<rightharpoonup> Participant) \<Rightarrow> nat \<Rightarrow> int \<Rightarrow> string option" where
  "slotID participantPositions n pos =
     (case participantPositions pos of
        Some p \<Rightarrow> if pos < int n then Some (p_ID p) else None
      | None \<Rightarrow> None)"

definition eliminationMatch ::
  "(nat \<Rightarrow> string) \<Rightarrow> Tournament \<Rightarrow> int list \<Rightarrow> (int \<rightharpoonup> Participant) \<Rightarrow> nat \<Rightarrow>
   nat \<Rightarrow> nat \<Rightarrow> Match list \<times> int \<Rightarrow> Match list \<times> int" where
  "eliminationMatch uuid tournament bracketPositions participantPositions n roundNo i state =
     (let fixtures = fst state;
          matchNumber = snd state;
          match = \<lparr> m_ID = uuid (length fixtures), m_TournamentID = t_ID tournament,
                    m_RoundNumber = int roundNo, m_MatchNumber = matchNumber,
                    m_Stage = ''main'', m_Participant1ID = None, m_Participant2ID = None,
                    m_Status = MatchPending, m_NextMatchID = None \<rparr>;
          match1 = (if roundNo = 1 then
                      match\<lparr> m_Participant1ID :=
                               slotID participantPositions n (bracketPositions ! (i * 2)),
                             m_Participant2ID :=
                               slotID participantPositions n (bracketPositions ! (i * 2 + 1)) \<rparr>
                    else match)
      in (fixtures @ [match1], matchNumber + 1))"

definition eliminationRound ::
  "(nat \<Rightarrow> string) \<Rightarrow> Tournament \<Rightarrow> int list \<Rightarrow> (int \<rightharpoonup> Participant) \<Rightarrow> nat \<Rightarrow>
   nat \<Rightarrow> nat \<Rightarrow> Match list \<times> int \<Rightarrow> Match list \<times> int" where
  "eliminationRound uuid tournament bracketPositions participantPositions n targetSize roundNo state =
     (let roundMatches = targetSize div 2 ^ roundNo
      in fold (eliminationMatch uuid tournament bracketPositions participantPositions n roundNo)
           [0..<roundMatches] state)"

text \<open>
  \<^verbatim>\<open>generateSingleEliminationFixtures\<close>. \<^verbatim>\<open>int(math.Ceil(math.Log2(float64(n))))\<close> is
  \<^term>\<open>ceillog2 n\<close> and \<^verbatim>\<open>int(math.Pow(2, float64(k)))\<close> is \<open>2 ^ k\<close>; \<^verbatim>\<open>make\<close> with the
  capacity \<^verbatim>\<open>n - 1\<close> panics for an empty participant list. The locals \<^verbatim>\<open>byes\<close> and
  \<^verbatim>\<open>firstRoundMatches\<close> are computed and never read.
\<close>

definition generateSingleEliminationFixtures ::
  "(nat \<Rightarrow> string) \<Rightarrow> Tournament \<Rightarrow> Participant list \<Rightarrow> error + Match list" where
  "generateSingleEliminationFixtures uuid tournament participants =
     (let n = length participants;
          rounds = ceillog2 n;
          targetSize = (2::nat) ^ rounds
      in if n = 0 then Inl PanicMakeSlice
         else (case createBracketPositions (int targetSize) of
                 None \<Rightarrow> Inl NoReturn
               | Some bracketPositions \<Rightarrow>
                   (let participantPositions = placeParticipants participants;
                        fixtures = fst (fold (eliminationRound uuid tournament bracketPositions
                                                participantPositions n targetSize)
                                          [1..<rounds + 1] ([], 1))
                    in Inr (linkBracketProgression fixtures rounds))))"

definition roundRobinMatch ::
  "(nat \<Rightarrow> string) \<Rightarrow> Tournament \<Rightarrow> Participant list \<Rightarrow> nat \<Rightarrow> nat \<Rightarrow>
   Match list \<times> int \<Rightarrow> Match list \<times> int" where
  "roundRobinMatch uuid tournament participants i j state =
     (let fixtures = fst state;
          matchNumber = snd state;
          match = \<lparr> m_ID = uuid (length fixtures), m_TournamentID = t_ID tournament,
                    m_RoundNumber = 1, m_MatchNumber = matchNumber, m_Stage = ''main'',
                    m_Participant1ID = Some (p_ID (participants ! i)),
                    m_Participant2ID = Some (p_ID (participants ! j)),
                    m_Status = MatchPending, m_NextMatchID = None \<rparr>
      in (fixtures @ [match], matchNumber + 1))"

definition generateRoundRobinFixtures ::
  "(nat \<Rightarrow> string) \<Rightarrow> Tournament \<Rightarrow> Participant list \<Rightarrow> Match list" where
  "generateRoundRobinFixtures uuid tournament participants =
     (let n = length participants
      in fst (fold (\<lambda>i. fold (roundRobinMatch uuid tournament participants i) [i + 1..<n])
                [0..<n] ([], 1)))"

subsection \<open>Fixture generation and its capacity check\<close>

text \<open>The check of \<^verbatim>\<open>GenerateFixtures\<close> that follows the format switch (``CRITICAL
  VALIDATION'').\<close>

definition validateFixtureCount :: "Tournament \<Rightarrow> Match list \<Rightarrow> error + unit" where
  "validateFixtureCount tournament fixtures =
     (let maxPossibleMatches =
            t_MaxMatchesPerDay tournament *
            calculateTournamentDays (t_StartDate tournament) (t_EndDate tournament)
      in if int (length fixtures) > maxPossibleMatches
         then Inl (ErrCapacityExceeded (length fixtures) maxPossibleMatches)
         else Inr ())"

text \<open>
  What \<^verbatim>\<open>GenerateFixtures\<close> takes from outside: identifiers, entropy, the library sort,
  the three generators whose source is not part of the file (``additional helper methods
  would continue here''), and the transaction that saves the fixtures (\<open>None\<close> when it
  commits).
\<close>

record Collaborators =
  env_uuid :: "nat \<Rightarrow> string"
  env_entropy :: "nat \<Rightarrow> nat"
  env_sortSlice :: SortSlice
  generateDoubleEliminationFixtures :: "Tournament \<Rightarrow> Participant list \<Rightarrow> Match list"
  generateGroupToKnockoutFixtures :: "Tournament \<Rightarrow> Participant list \<Rightarrow> Match list"
  generateSwissFirstRound :: "Tournament \<Rightarrow> Participant list \<Rightarrow> Match list"
  env_saveFixtures :: "Match list \<Rightarrow> string option"

definition generateByFormat ::
  "Collaborators \<Rightarrow> Tournament \<Rightarrow> Participant list \<Rightarrow> error + Match list" where
  "generateByFormat env tournament seededParticipants =
     (if t_FormatType tournament = FormatSingleElimination then
        generateSingleEliminationFixtures (env_uuid env) tournament seededParticipants
      else if t_FormatType tournament = FormatDoubleElimination then
        Inr (generateDoubleEliminationFixtures env tournament seededParticipants)
      else if t_FormatType tournament = FormatRoundRobin then
        Inr (generateRoundRobinFixtures (env_uuid env) tournament seededParticipants)
      else if t_FormatType tournament = FormatGroupToKnockout then
        Inr (generateGroupToKnockoutFixtures env tournament seededParticipants)
      else if t_FormatType tournament = FormatSwiss then
        Inr (generateSwissFirstRound env tournament seededParticipants)
      else Inl (UnsupportedFormat (t_FormatType tournament)))"

text \<open>\<^verbatim>\<open>GenerateFixtures\<close> from the point where the tournament and its participants have been
  fetched.\<close>

definition GenerateFixtures ::
  "Collaborators \<Rightarrow> Tournament \<Rightarrow> Participant list \<Rightarrow> string \<Rightarrow> SeedingData list \<Rightarrow>
   error + Match list" where
  "GenerateFixtures env tournament participants seedingMethod seedingData =
     (if t_Status tournament \<noteq> StatusRegistrationClosed then Inl NotRegistrationClosed
      else if length participants < 2 then Inl ErrInsufficientParticipants
      else (let seededParticipants =
                  applySeedingMethod (env_sortSlice env) (env_entropy env) participants
                    seedingMethod seedingData
            in case generateByFormat env tournament seededParticipants of
                 Inl e \<Rightarrow> Inl e
               | Inr fixtures \<Rightarrow>
                   (case validateFixtureCount tournament fixtures of
                      Inl e \<Rightarrow> Inl e
                    | Inr u \<Rightarrow>
                        (case env_saveFixtures env fixtures of
                           Some msg \<Rightarrow> Inl (Persistence msg)
                         | None \<Rightarrow> Inr fixtures))))"

subsection \<open>Example inputs\<close>

text \<open>
  The capacity example of the specification (one day, one venue, 09:00 to 17:00, matches
  of 30 minutes with 10 minutes between them), with the daily cap left open; a tournament
  on the same day whose registration is closed; participants seeded in list order.
\<close>

definition exampleRequest :: "TournamentFormat \<Rightarrow> int \<Rightarrow> CreateTournamentRequest" where
  "exampleRequest format perDay =
     \<lparr> req_Name = ''Open'', req_FormatType = format, req_FormatConfig = None,
       req_StartDate = 0, req_EndDate = 0, req_MaxMatchesPerDay = perDay,
       req_OperationalHours = [(''monday'', \<lparr>StartTime = ''09:00'', EndTime = ''17:00''\<rparr>)],
       req_AvgMatchDuration = 30, req_BufferTime = 10,
       req_Venues = [\<lparr>v_Name = ''Court 1'', v_Type = ''court''\<rparr>] \<rparr>"

definition exampleTournament :: "TournamentFormat \<Rightarrow> int \<Rightarrow> Tournament" where
  "exampleTournament format perDay =
     \<lparr> t_ID = ''T1'', t_OrganizerID = ''org'', t_Name = ''Open'',
       t_FormatType = format, t_FormatConfig = None,
       t_StartDate = 0, t_EndDate = 0, t_MaxMatchesPerDay = perDay,
       t_OperationalHours = [(''monday'', \<lparr>StartTime = ''09:00'', EndTime = ''17:00''\<rparr>)],
       t_AvgMatchDuration = 30, t_BufferTime = 10, t_CapacityLimit = perDay + 1,
       t_CurrentParticipants = 0, t_Status = StatusRegistrationClosed, t_IsPublic = False \<rparr>"

definition exampleParticipant :: "nat \<Rightarrow> Participant" where
  "exampleParticipant k =
     \<lparr> p_ID = replicate k CHR ''p'', p_Name = replicate k CHR ''n'', p_Seed = Some (int k) \<rparr>"

definition exampleParticipants :: "nat \<Rightarrow> Participant list" where
  "exampleParticipants n = map exampleParticipant [1..<n + 1]"

text \<open>Manual seeds for the third and the first example participant; the second has none.\<close>

definition exampleSeedingData :: "SeedingData list" where
  "exampleSeedingData =
     [\<lparr>sd_ParticipantID = ''ppp'', sd_Seed = 1\<rparr>, \<lparr>sd_ParticipantID = ''p'', sd_Seed = 2\<rparr>]"

definition exampleUUID :: "nat \<Rightarrow> string" where
  "exampleUUID k = replicate (k + 1) CHR ''m''"

text \<open>A stable insertion sort, as an instance of \<open>sortSlice\<close>.\<close>

fun insertBy :: "('a \<Rightarrow> 'a \<Rightarrow> bool) \<Rightarrow> 'a \<Rightarrow> 'a list \<Rightarrow> 'a list" where
  "insertBy lt x [] = [x]"
| "insertBy lt x (y # ys) = (if lt x y then x # y # ys else y # insertBy lt x ys)"

definition insertionSort :: "('a \<Rightarrow> 'a \<Rightarrow> bool) \<Rightarrow> 'a list \<Rightarrow> 'a list" where
  "insertionSort lt xs = fold (insertBy lt) xs []"

definition exampleFloat64 :: Float64Ops where
  "exampleFloat64 = \<lparr> rrRoot = (\<lambda>slots. 0), scale = (\<lambda>total slots required. 0) \<rparr>"

definition exampleCollaborators :: Collaborators where
  "exampleCollaborators =
     \<lparr> env_uuid = exampleUUID, env_entropy = (\<lambda>i. i), env_sortSlice = insertionSort,
       generateDoubleEliminationFixtures = (\<lambda>t ps. []),
       generateGroupToKnockoutFixtures = (\<lambda>t ps. []),
       generateSwissFirstRound = (\<lambda>t ps. []),
       env_saveFixtures = (\<lambda>fixtures. None) \<rparr>"

subsection \<open>Closed forms used in the proofs\<close>


text \<open>The match that the round-robin generator appends as its \<open>k\<close>-th (from 0) for the
  pair \<open>ij\<close> of participant indices.\<close>

definition rrMatch ::
  "(nat \<Rightarrow> string) \<Rightarrow> Tournament \<Rightarrow> Participant list \<Rightarrow> nat \<Rightarrow> nat \<times> nat \<Rightarrow> Match" where
  "rrMatch uuid tournament participants k ij =
     \<lparr> m_ID = uuid k, m_TournamentID = t_ID tournament,
       m_RoundNumber = 1, m_MatchNumber = int k + 1, m_Stage = ''main'',
       m_Participant1ID = Some (p_ID (participants ! fst ij)),
       m_Participant2ID = Some (p_ID (participants ! snd ij)),
       m_Status = MatchPending, m_NextMatchID = None \<rparr>"

text \<open>
  Single elimination: the pairs (round, index in the round) in the order in which the
  two loops visit them, and the match that is appended as the \<open>k\<close>-th (from 0) for such a
  pair.
\<close>

definition seSlots :: "nat \<Rightarrow> (nat \<times> nat) list" where
  "seSlots rounds =
     concat (map (\<lambda>r. map (Pair r) [0..<2 ^ rounds div 2 ^ r]) [1..<rounds + 1])"

definition seMatch ::
  "(nat \<Rightarrow> string) \<Rightarrow> Tournament \<Rightarrow> int list \<Rightarrow> (int \<rightharpoonup> Participant) \<Rightarrow> nat \<Rightarrow>
   nat \<Rightarrow> nat \<times> nat \<Rightarrow> Match" where
  "seMatch uuid tournament bracketPositions participantPositions n k ri =
     \<lparr> m_ID = uuid k, m_TournamentID = t_ID tournament,
       m_RoundNumber = int (fst ri), m_MatchNumber = int k + 1, m_Stage = ''main'',
       m_Participant1ID =
         (if fst ri = 1 then slotID participantPositions n (bracketPositions ! (snd ri * 2))
          else None),
       m_Participant2ID =
         (if fst ri = 1 then slotID participantPositions n (bracketPositions ! (snd ri * 2 + 1))
          else None),
       m_Status = MatchPending, m_NextMatchID = None \<rparr>"

text \<open>A match apart from its progression link.\<close>

definition unlinked :: "Match \<Rightarrow> Match" where
  "unlinked m = m\<lparr>m_NextMatchID := None\<rparr>"

text \<open>The identifier of the first participant whose seed is \<open>pos + 1\<close>, if there is one: what
  a bracket position holds when the participant with seed \<open>s\<close> stands at position \<open>s - 1\<close>.\<close>

definition seededSlot :: "Participant list \<Rightarrow> int \<Rightarrow> string option" where
  "seededSlot participants pos =
     (case find (\<lambda>p. p_Seed p = Some (pos + 1)) participants of
        Some p \<Rightarrow> Some (p_ID p)
      | None \<Rightarrow> None)"

section \<open>Properties\<close>

subsection \<open>Bracket positions\<close>

lemma go_quot_nonneg: "0 \<le> a \<Longrightarrow> 0 < b \<Longrightarrow> go_quot a b = a div b"
  by (cases "a = 0") (simp_all add: go_quot_def)

lemma length_fold_interleave:
  "length (fold (interleave_step h l r) xs ps) = length ps"
  by (induction xs arbitrary: ps) (simp_all add: interleave_step_def)

lemma nth_interleave_step:
  "2 * i + 1 < length ps \<Longrightarrow>
   interleave_step h l r i ps ! j =
     (if j = 2 * i then l ! i else if j = 2 * i + 1 then r ! (h - 1 - i) + int h else ps ! j)"
  by (auto simp: interleave_step_def nth_list_update mult.commute)

lemma nth_fold_interleave:
  "k \<le> h \<Longrightarrow> 2 * h \<le> length ps \<Longrightarrow> j < length ps \<Longrightarrow>
   fold (interleave_step h l r) [0..<k] ps ! j =
     (if j < 2 * k then (if even j then l ! (j div 2) else r ! (h - 1 - j div 2) + int h)
      else ps ! j)"
proof (induction k)
  case 0
  then show ?case by simp
next
  case (Suc k)
  let ?qs = "fold (interleave_step h l r) [0..<k] ps"
  have len: "2 * k + 1 < length ?qs"
    using Suc.prems by (simp add: length_fold_interleave)
  have IH: "?qs ! j =
     (if j < 2 * k then (if even j then l ! (j div 2) else r ! (h - 1 - j div 2) + int h)
      else ps ! j)"
    using Suc by simp
  have "fold (interleave_step h l r) [0..<Suc k] ps ! j = interleave_step h l r k ?qs ! j"
    by simp
  also have "\<dots> = (if j = 2 * k then l ! k else if j = 2 * k + 1 then r ! (h - 1 - k) + int h
                     else ?qs ! j)"
    by (rule nth_interleave_step [OF len])
  also have "\<dots> = (if j < 2 * Suc k then (if even j then l ! (j div 2) else r ! (h - 1 - j div 2) + int h)
      else ps ! j)"
    unfolding IH by (auto elim: oddE)
  finally show ?case .
qed

lemma interleave_Some:
  assumes "0 \<le> sz" "length l = h" "length r = h" "2 * h \<le> nat sz"
  shows "\<exists>ps. interleave sz (int h) l r = Some ps \<and> length ps = nat sz \<and>
           (\<forall>j < nat sz. ps ! j =
              (if j < 2 * h then (if even j then l ! (j div 2) else r ! (h - 1 - j div 2) + int h)
               else 0))"
  using assms
  by (simp add: interleave_def length_fold_interleave nth_fold_interleave)

lemma set_interleaved:
  assumes len: "length ps = 2 * h"
    and nth: "\<forall>j < 2 * h. ps ! j = (if even j then l ! (j div 2) else r ! (h - 1 - j div 2) + int h)"
    and l: "length l = h" "set l = {0..<int h}"
    and r: "length r = h" "set r = {0..<int h}"
  shows "set ps = {0..<int (2 * h)}"
proof (intro equalityI subsetI)
  fix x assume "x \<in> set ps"
  then obtain j where j: "j < 2 * h" "x = ps ! j"
    using len by (auto simp: in_set_conv_nth)
  show "x \<in> {0..<int (2 * h)}"
  proof (cases "even j")
    case True
    then have "x = l ! (j div 2)" using j nth by simp
    moreover have "l ! (j div 2) \<in> set l" using j l by (intro nth_mem) auto
    ultimately show ?thesis using l by auto
  next
    case False
    then have "x = r ! (h - 1 - j div 2) + int h" using j nth by simp
    moreover have "r ! (h - 1 - j div 2) \<in> set r" using j r by (intro nth_mem) auto
    ultimately show ?thesis using r by auto
  qed
next
  fix x assume x: "x \<in> {0..<int (2 * h)}"
  show "x \<in> set ps"
  proof (cases "x < int h")
    case True
    then have "x \<in> set l" using x l by auto
    then obtain i where i: "i < h" "l ! i = x" unfolding in_set_conv_nth l(1) by blast
    then have "ps ! (2 * i) = x" using nth by simp
    moreover have "2 * i < length ps" using i len by simp
    ultimately show ?thesis by (metis nth_mem)
  next
    case False
    then have "x - int h \<in> set r" using x r by auto
    then obtain i where i: "i < h" "r ! i = x - int h" unfolding in_set_conv_nth r(1) by blast
    let ?j = "2 * (h - 1 - i) + 1"
    have jlt: "?j < 2 * h" using i by arith
    have "(h - 1 - ?j div 2) = i" using i by simp
    then have "ps ! ?j = x" using nth jlt i by simp
    moreover have "?j < length ps" using jlt len by simp
    ultimately show ?thesis by (metis nth_mem)
  qed
qed

lemma go_quot_pow2: "go_quot (2 ^ Suc k) 2 = 2 ^ k"
  by (simp add: go_quot_nonneg)

lemma cbp_step:
  assumes half: "createBracketPositions (int h) = Some half" "length half = h"
    "set half = {0..<int h}" and h: "2 \<le> h"
  shows "\<exists>ps. createBracketPositions (int (2 * h)) = Some ps \<and> length ps = 2 * h \<and>
        set ps = {0..<int (2 * h)} \<and>
        (\<forall>i < h. ps ! (2 * i) = half ! i \<and> ps ! (2 * i + 1) = half ! (h - 1 - i) + int h)"
proof -
  define sz where "sz = int (2 * h)"
  have ne: "sz \<noteq> 2" and nsz: "nat sz = 2 * h" and pos: "0 \<le> sz"
    using h by (simp_all add: sz_def)
  have q: "go_quot sz 2 = int h"
    by (simp add: go_quot_nonneg sz_def)
  have "\<exists>ps. interleave sz (int h) half half = Some ps \<and> length ps = nat sz \<and>
           (\<forall>j < nat sz. ps ! j =
              (if j < 2 * h then (if even j then half ! (j div 2) else half ! (h - 1 - j div 2) + int h)
               else 0))"
    by (rule interleave_Some) (use half pos nsz in simp_all)
  then obtain ps where ps: "interleave sz (int h) half half = Some ps" "length ps = 2 * h"
    "\<forall>j < 2 * h. ps ! j = (if even j then half ! (j div 2) else half ! (h - 1 - j div 2) + int h)"
    unfolding nsz by auto
  have run: "createBracketPositions sz = Some ps"
    using ne half(1) ps(1) q by (subst createBracketPositions.simps) simp
  have "set ps = {0..<int (2 * h)}"
    by (rule set_interleaved [OF ps(2) ps(3)]) (use half in simp_all)
  moreover have "\<forall>i < h. ps ! (2 * i) = half ! i \<and> ps ! (2 * i + 1) = half ! (h - 1 - i) + int h"
    using ps(3) by simp
  ultimately show ?thesis using run ps(2) unfolding sz_def by blast
qed

lemma cbp_pow2:
  "\<exists>ps. createBracketPositions (2 ^ Suc k) = Some ps \<and> length ps = 2 ^ Suc k \<and>
        set ps = {0..<2 ^ Suc k} \<and>
        (0 < k \<longrightarrow> (\<exists>half. createBracketPositions (2 ^ k) = Some half \<and>
           (\<forall>i < 2 ^ k. ps ! (2 * i) = half ! i \<and>
                         ps ! (2 * i + 1) = half ! (2 ^ k - 1 - i) + 2 ^ k)))"
proof (induction k)
  case 0
  have "{0..<2::int} = {0, 1}" by auto
  then show ?case by (simp add: createBracketPositions.simps [of 2])
next
  case (Suc k)
  then obtain half where half: "createBracketPositions (int (2 ^ Suc k)) = Some half"
    "length half = 2 ^ Suc k" "set half = {0..<int (2 ^ Suc k)}" by auto
  have "2 \<le> (2::nat) ^ Suc k" by simp
  from cbp_step [OF half this] half(1) show ?case by simp
qed

lemma go_quot_2_ge:
  assumes "2 \<le> go_quot sz 2"
  shows "4 \<le> sz" and "go_quot sz 2 = sz div 2"
proof -
  have "0 < sz"
  proof (rule ccontr)
    assume "\<not> 0 < sz"
    then have "go_quot sz 2 \<le> 0"
      by (cases "sz = 0") (simp_all add: go_quot_def sgn_if pos_imp_zdiv_nonneg_iff)
    with assms show False by simp
  qed
  then show q: "go_quot sz 2 = sz div 2" by (simp add: go_quot_nonneg)
  with assms show "4 \<le> sz" by simp
qed

lemma cbp_returns:
  assumes ret: "createBracketPositions sz0 = Some ps0"
  shows "2 \<le> sz0 \<and> length ps0 = nat sz0 \<and> ps0 ! 0 = 0 \<and>
         (distinct ps0 \<longrightarrow> (\<exists>k. sz0 = 2 ^ Suc k))"
proof (rule createBracketPositions.raw_induct
    [where P = "\<lambda>sz ps. 2 \<le> sz \<and> length ps = nat sz \<and> ps ! 0 = 0 \<and>
         (distinct ps \<longrightarrow> (\<exists>k. sz = 2 ^ Suc k))", OF _ ret])
  fix f :: "int \<Rightarrow> int list option" and sz :: int and ps :: "int list"
  assume 1: "\<And>x y. f x = Some y \<Longrightarrow> 2 \<le> x \<and> length y = nat x \<and> y ! 0 = 0 \<and>
         (distinct y \<longrightarrow> (\<exists>k. x = 2 ^ Suc k))"
    "(if sz = 2 then Some [0, 1]
      else Option.bind (f (go_quot sz 2)) (\<lambda>left.
           Option.bind (f (go_quot sz 2)) (\<lambda>right.
           interleave sz (go_quot sz 2) left right))) = Some ps"
  let ?case = "2 \<le> sz \<and> length ps = nat sz \<and> ps ! 0 = 0 \<and>
         (distinct ps \<longrightarrow> (\<exists>k. sz = 2 ^ Suc k))"
  show ?case
  proof (cases "sz = 2")
    case True
    with 1(2) have "ps = [0, 1]" by simp
    moreover have "\<exists>k. (2::int) = 2 ^ Suc k" by (rule exI [of _ 0]) simp
    ultimately show ?thesis using True by simp
  next
    case False
    with 1(2) obtain left where left: "f (go_quot sz 2) = Some left"
      and il: "interleave sz (go_quot sz 2) left left = Some ps"
      by (auto simp: bind_eq_Some_conv)
    from 1(1) [OF left] have IH: "2 \<le> go_quot sz 2" "length left = nat (go_quot sz 2)"
      "left ! 0 = 0" "distinct left \<longrightarrow> (\<exists>k. go_quot sz 2 = 2 ^ Suc k)" by auto
    define h where "h = nat (go_quot sz 2)"
    have sz4: "4 \<le> sz" and q: "go_quot sz 2 = sz div 2"
      using go_quot_2_ge [OF IH(1)] by auto
    have h2: "2 \<le> h" "2 * h \<le> nat sz" "int h = sz div 2" using IH(1) q by (auto simp: h_def)
    have ps: "ps = fold (interleave_step h left left) [0..<h] (replicate (nat sz) 0)"
      using il by (simp add: interleave_def h_def split: if_splits)
    have len: "length ps = nat sz" by (simp add: ps length_fold_interleave)
    have nth: "ps ! j = (if j < 2 * h then (if even j then left ! (j div 2)
                 else left ! (h - 1 - j div 2) + int h) else 0)" if "j < nat sz" for j
      unfolding ps using that h2 by (subst nth_fold_interleave) auto
    have p0: "ps ! 0 = 0" using nth [of 0] h2 sz4 IH(3) by simp
    have "\<exists>k. sz = 2 ^ Suc k" if d: "distinct ps"
    proof (cases "even sz")
      case True
      then have sz: "nat sz = 2 * h" using h2 sz4 by (auto elim!: evenE)
      have "distinct left"
        unfolding distinct_conv_nth
      proof (intro allI impI)
        fix i j assume ij: "i < length left" "j < length left" "i \<noteq> j"
        then have "i < h" "j < h" using IH(2) by (simp_all add: h_def)
        then have "ps ! (2 * i) = left ! i" "ps ! (2 * j) = left ! j" "2 * i < length ps" "2 * j < length ps"
          using nth [of "2 * i"] nth [of "2 * j"] sz len by simp_all
        moreover have "2 * i \<noteq> 2 * j" using ij by simp
        ultimately show "left ! i \<noteq> left ! j" using d by (metis nth_eq_iff_index_eq)
      qed
      with IH(4) obtain k where "go_quot sz 2 = 2 ^ Suc k" by blast
      then have "sz = 2 ^ Suc (Suc k)" using True q by (auto elim!: evenE)
      then show ?thesis by blast
    next
      case False
      then have sz: "nat sz = 2 * h + 1" using h2 sz4 by (auto elim!: oddE)
      have "ps ! (2 * h) = 0" using nth [of "2 * h"] sz by simp
      moreover have "2 * h < length ps" "0 < length ps" "2 * h \<noteq> 0" using sz len h2 by simp_all
      ultimately have False using d p0 by (metis nth_eq_iff_index_eq)
      then show ?thesis ..
    qed
    then show ?thesis using sz4 len p0 by simp
  qed
qed

lemma cbp_pow2_distinct:
  assumes "createBracketPositions (2 ^ k) = Some ps" "length ps = 2 ^ k" "set ps = {0..<2 ^ k}"
  shows "distinct ps"
proof -
  have "card (set ps) = length ps"
    using assms(2,3) by simp
  then show ?thesis by (rule card_distinct)
qed

text \<open>
  Claim C3: for a size \<open>2 ^ k\<close> with \<open>k \<ge> 1\<close> the generator returns a permutation of
  \<open>0, \<dots>, size - 1\<close>, it returns \<open>[0, 1]\<close> for size 2 and \<open>[0, 3, 1, 2]\<close> for size 4, and
  from size 4 on slot \<open>2i\<close> holds \<open>left[i]\<close> and slot \<open>2i + 1\<close> holds
  \<open>right[half - 1 - i] + half\<close>, where \<open>left = right\<close> is the result for \<open>half\<close>.
\<close>

theorem C3_bracket_positions_permutation:
  "1 \<le> k \<Longrightarrow>
   createBracketPositions 2 = Some [0, 1] \<and>
   createBracketPositions 4 = Some [0, 3, 1, 2] \<and>
   (\<exists>ps. createBracketPositions (2 ^ k) = Some ps \<and> length ps = 2 ^ k \<and>
         distinct ps \<and> set ps = {0..<2 ^ k} \<and>
         (2 \<le> k \<longrightarrow>
           (\<exists>half. createBracketPositions (2 ^ (k - 1)) = Some half \<and>
              (\<forall>i < 2 ^ (k - 1).
                 ps ! (2 * i) = half ! i \<and>
                 ps ! (2 * i + 1) = half ! (2 ^ (k - 1) - 1 - i) + 2 ^ (k - 1)))))"
proof -
  assume k: "1 \<le> k"
  then obtain j where j: "k = Suc j" by (cases k) auto
  have two: "createBracketPositions 2 = Some [0, 1]"
    by (simp add: createBracketPositions.simps [of 2])
  have four: "createBracketPositions 4 = Some [0, 3, 1, 2]"
    by code_simp
  from cbp_pow2 [of j] obtain ps where ps:
    "createBracketPositions (2 ^ Suc j) = Some ps" "length ps = 2 ^ Suc j"
    "set ps = {0..<2 ^ Suc j}"
    "0 < j \<longrightarrow> (\<exists>half. createBracketPositions (2 ^ j) = Some half \<and>
           (\<forall>i < 2 ^ j. ps ! (2 * i) = half ! i \<and>
                         ps ! (2 * i + 1) = half ! (2 ^ j - 1 - i) + 2 ^ j))"
    by blast
  have "distinct ps" by (rule cbp_pow2_distinct [OF ps(1-3)])
  with ps two four show ?thesis unfolding j by auto
qed

theorem C3_bracket_positions_permutation_witness:
  "1 \<le> (3::nat) \<and> 2 \<le> (3::nat) \<and>
   (\<exists>ps. createBracketPositions 8 = Some ps \<and> length ps = 8 \<and> distinct ps \<and>
         set ps = {0..<8} \<and>
         (\<exists>half. createBracketPositions 4 = Some half \<and>
            (\<forall>i < 4. ps ! (2 * i) = half ! i \<and> ps ! (2 * i + 1) = half ! (4 - 1 - i) + 4)))"
  using C3_bracket_positions_permutation [of 3] by auto

lemma not_pow2_5: "\<not> (\<exists>k. 1 \<le> k \<and> (5::int) = 2 ^ k)"
proof
  assume "\<exists>k. 1 \<le> k \<and> (5::int) = 2 ^ k"
  then obtain k where k: "1 \<le> k" "(5::int) = 2 ^ k" by blast
  have "even ((2::int) ^ k)" using k(1) by simp
  then have "even (5::int)" by (simp only: k(2))
  then show False by simp
qed

text \<open>
  Claim C4 says that a size that is not a power of two, or is below 2, is answered with an
  InvalidSize error. The function has no error result and no check of its argument: for
  size 5 it returns a sequence.
\<close>

theorem C4_invalid_size_counterexample:
  "\<not> (\<exists>k. 1 \<le> k \<and> (5::int) = 2 ^ k) \<and> createBracketPositions 5 = Some [0, 3, 1, 2, 0]"
proof
  show "\<not> (\<exists>k. 1 \<le> k \<and> (5::int) = 2 ^ k)" by (rule not_pow2_5)
  show "createBracketPositions 5 = Some [0, 3, 1, 2, 0]" by code_simp
qed

text \<open>
  Claim C4 as amended: for a size that is not a power of two \<open>\<ge> 2\<close> the generator
  reports nothing; it either never returns or returns a sequence with a repeated entry
  (so never a permutation).
\<close>

theorem C4_no_size_validation:
  "\<not> (\<exists>k. 1 \<le> k \<and> sz = 2 ^ k) \<Longrightarrow>
   createBracketPositions sz = None \<or>
   (\<exists>ps. createBracketPositions sz = Some ps \<and> \<not> distinct ps)"
proof (cases "createBracketPositions sz")
  case None
  then show ?thesis by simp
next
  case (Some ps)
  assume np: "\<not> (\<exists>k. 1 \<le> k \<and> sz = 2 ^ k)"
  have "\<not> distinct ps"
  proof
    assume "distinct ps"
    with cbp_returns [OF Some] obtain k where "sz = 2 ^ Suc k" by blast
    with np show False by (metis Suc_le_mono le0 One_nat_def)
  qed
  with Some show ?thesis by simp
qed

theorem C4_no_size_validation_witness:
  "\<not> (\<exists>k. 1 \<le> k \<and> (5::int) = 2 ^ k) \<and>
   (createBracketPositions 5 = None \<or>
    (\<exists>ps. createBracketPositions 5 = Some ps \<and> \<not> distinct ps))"
  using C4_no_size_validation [of 5] not_pow2_5 by blast

lemma cbp_3: "createBracketPositions 3 = None"
proof (cases "createBracketPositions 3")
  case (Some ps)
  from cbp_returns [OF Some] have "length ps = 3" "ps ! 0 = 0" by simp_all
  have "createBracketPositions 1 \<noteq> None"
    using Some by (subst (asm) createBracketPositions.simps) (auto simp: go_quot_def bind_eq_Some_conv)
  then obtain qs where "createBracketPositions 1 = Some qs" by auto
  from cbp_returns [OF this] show ?thesis by simp
qed simp

subsection \<open>Capacity and the fixture count check\<close>

lemma calculateTournamentDays_same: "calculateTournamentDays d d = 1"
  by (simp add: calculateTournamentDays_def time_Sub_def go_quot_def)

lemma calculateTournamentDays_whole_days:
  assumes "0 \<le> d" "d * 86400000000000 < 2 ^ 63"
  shows "calculateTournamentDays s (s + d * 86400000000000) = d + 1"
proof -
  have "time_Sub (s + d * 86400000000000) s = d * 86400000000000"
    using assms by (simp add: time_Sub_def)
  then show ?thesis
    using assms(1) by (simp add: calculateTournamentDays_def go_quot_nonneg)
qed

lemma nine_to_five: "calculateDailyOperationalMinutes [(day, \<lparr>StartTime = ''09:00'', EndTime = ''17:00''\<rparr>)] = 480"
  by (simp add: calculateDailyOperationalMinutes_def dailyStep_def clockMinutes_def parseClock_def
      isDigit_def digit_def go_quot_def)



text \<open>
  Claim C5: for every request and format, a computed capacity below 2 makes \<^verbatim>\<open>Create\<close>
  return the error and no tournament; a tournament that is returned carries the
  computed capacity unchanged, and that capacity is at least 2.
\<close>

theorem C5_capacity_below_two_is_reported:
  "(\<forall>capacity. calculateTournamentCapacity fp req = Inr capacity \<and> capacity < 2 \<longrightarrow>
      Create fp newID store organizerID req = Inl ConstraintsTooRestrictive) \<and>
   (\<forall>t. Create fp newID store organizerID req = Inr t \<longrightarrow>
      calculateTournamentCapacity fp req = Inr (t_CapacityLimit t) \<and> 2 \<le> t_CapacityLimit t)"
  by (auto simp: Create_def Let_def split: sum.splits option.splits if_splits)


lemma example_capacity:
  "calculateTournamentCapacity fp (exampleRequest FormatSingleElimination perDay) =
     Inr (min perDay 12 + 1)"
  by (simp add: calculateTournamentCapacity_def totalMatchSlots_def formatCapacity_def
      exampleRequest_def matchesPerVenuePerDay_def nine_to_five calculateTournamentDays_same
      go_quot_def min_def)

theorem C5_capacity_below_two_is_reported_witness:
  "calculateTournamentCapacity exampleFloat64 (exampleRequest FormatSingleElimination 0) = Inr 1 \<and>
   (1::int) < 2 \<and>
   Create exampleFloat64 ''T1'' (\<lambda>t vs. None) ''org'' (exampleRequest FormatSingleElimination 0) =
     Inl ConstraintsTooRestrictive \<and>
   Create exampleFloat64 ''T1'' (\<lambda>t vs. None) ''org'' (exampleRequest FormatSingleElimination 4) =
     Inr ((exampleTournament FormatSingleElimination 4)\<lparr>t_Status := StatusDraft\<rparr>) \<and>
   2 \<le> t_CapacityLimit ((exampleTournament FormatSingleElimination 4)\<lparr>t_Status := StatusDraft\<rparr>)"
proof -
  have low: "calculateTournamentCapacity exampleFloat64 (exampleRequest FormatSingleElimination 0) = Inr 1"
    by (simp add: example_capacity)
  have ok: "Create exampleFloat64 ''T1'' (\<lambda>t vs. None) ''org'' (exampleRequest FormatSingleElimination 4) =
     Inr ((exampleTournament FormatSingleElimination 4)\<lparr>t_Status := StatusDraft\<rparr>)"
    by (simp add: Create_def example_capacity) (simp add: exampleRequest_def exampleTournament_def)
  from C5_capacity_below_two_is_reported
    [of exampleFloat64 "exampleRequest FormatSingleElimination 0" "''T1''" "\<lambda>t vs. None" "''org''"]
    C5_capacity_below_two_is_reported
    [of exampleFloat64 "exampleRequest FormatSingleElimination 4" "''T1''" "\<lambda>t vs. None" "''org''"]
    low ok
  show ?thesis by simp
qed



subsection \<open>Round robin\<close>

lemma filter_less_upt: "filter (\<lambda>j. i < j) [0..<n] = [Suc i..<n]"
proof (induction n)
  case 0
  then show ?case by simp
next
  case (Suc n)
  then show ?case by (cases "i < n") (simp_all add: upt_Suc less_Suc_eq_le)
qed

lemma allPairs_concat:
  "filter (\<lambda>(i, j). i < j) (List.product [0..<n] [0..<n]) =
   concat (map (\<lambda>i. map (Pair i) [i + 1..<n]) [0..<n])"
proof -
  have "filter (\<lambda>(i, j). i < j) (map (Pair i) [0..<n]) = map (Pair i) [i + 1..<n]" for i
    by (simp add: filter_map comp_def filter_less_upt)
  then show ?thesis
    by (simp add: product_concat_map filter_concat comp_def)
qed

lemma length_allPairs:
  "length (concat (map (\<lambda>i. map (Pair i) [i + 1..<n]) [0..<n])) = n * (n - 1) div 2"
proof -
  have "length (concat (map (\<lambda>i. map (Pair i) [i + 1..<n]) [0..<n])) =
        sum_list (map (\<lambda>i. n - Suc i) [0..<n])"
    by (simp add: length_concat comp_def)
  also have "\<dots> = (\<Sum>i<n. n - Suc i)"
    by (simp add: interv_sum_list_conv_sum_set_nat atLeast0LessThan)
  also have "\<dots> = (\<Sum>i<n. i)"
    by (rule sum.nat_diff_reindex)
  also have "\<dots> = n * (n - 1) div 2"
    using Sum_Ico_nat [of 0 n] by (simp add: atLeast0LessThan)
  finally show ?thesis .
qed

lemma fold_roundRobinMatch:
  "fold (roundRobinMatch uuid t ps i) js (fx, int (length fx) + 1) =
     (fx @ map (\<lambda>(k, j). rrMatch uuid t ps k (i, j)) (enumerate (length fx) js),
      int (length fx + length js) + 1)"
proof (induction js arbitrary: fx)
  case Nil
  then show ?case by simp
next
  case (Cons j js)
  have step: "roundRobinMatch uuid t ps i j (fx, int (length fx) + 1) =
          (fx @ [rrMatch uuid t ps (length fx) (i, j)], int (length (fx @ [rrMatch uuid t ps (length fx) (i, j)])) + 1)"
    by (simp add: roundRobinMatch_def rrMatch_def)
  show ?case
    by (simp only: fold_simps step Cons.IH) simp
qed

lemma enumerate_map_snd:
  "enumerate n (map f xs) = map (\<lambda>(k, x). (k, f x)) (enumerate n xs)"
  by (induction xs arbitrary: n) auto

lemma fold_roundRobin_outer:
  "fold (\<lambda>i. fold (roundRobinMatch uuid t ps i) (g i)) is (fx, int (length fx) + 1) =
     (fx @ map (\<lambda>(k, ij). rrMatch uuid t ps k ij)
              (enumerate (length fx) (concat (map (\<lambda>i. map (Pair i) (g i)) is))),
      int (length fx + length (concat (map (\<lambda>i. map (Pair i) (g i)) is))) + 1)"
proof (induction "is" arbitrary: fx)
  case Nil
  then show ?case by simp
next
  case (Cons i "is")
  let ?fx1 = "fx @ map (\<lambda>(k, j). rrMatch uuid t ps k (i, j)) (enumerate (length fx) (g i))"
  have len: "length ?fx1 = length fx + length (g i)" by simp
  have "fold (\<lambda>i. fold (roundRobinMatch uuid t ps i) (g i)) (i # is) (fx, int (length fx) + 1) =
        fold (\<lambda>i. fold (roundRobinMatch uuid t ps i) (g i)) is (?fx1, int (length ?fx1) + 1)"
    by (simp only: fold_simps fold_roundRobinMatch len)
  also note Cons.IH [of ?fx1]
  finally show ?case
    by (simp add: enumerate_append_eq enumerate_map_snd split_def o_def add.commute)
qed

lemma generateRoundRobinFixtures_eq:
  "generateRoundRobinFixtures uuid t ps =
     map (\<lambda>(k, ij). rrMatch uuid t ps k ij)
       (enumerate 0 (filter (\<lambda>(i, j). i < j) (List.product [0..<length ps] [0..<length ps])))"
  using fold_roundRobin_outer [of uuid t ps "\<lambda>i. [i + 1..<length ps]" "[0..<length ps]" "[]"]
  by (simp add: generateRoundRobinFixtures_def allPairs_concat Let_def)

lemma map_enumerate_snd:
  "map (\<lambda>x. f (snd x)) (enumerate n xs) = map f xs"
  by (induction xs arbitrary: n) auto

lemma map_enumerate_fst:
  "map (\<lambda>x. g (fst x)) (enumerate n xs) = map g [n..<n + length xs]"
proof -
  have "map g (map fst (enumerate n xs)) = map g [n..<n + length xs]"
    by (simp only: map_fst_enumerate)
  then show ?thesis by (simp only: map_map o_def)
qed

text \<open>
  Claim C7: for \<open>n \<ge> 2\<close> participants the round-robin generator returns
  \<open>n (n - 1) / 2\<close> matches, one for each pair \<open>(i, j)\<close> with \<open>i < j\<close> of positions in seed
  order, in lexicographic order and each pair once; every match has round number 1 and
  the match numbers are \<open>1, 2, \<dots>\<close> in that order.
\<close>

theorem C7_round_robin:
  "2 \<le> length participants \<Longrightarrow>
   (let n = length participants;
        fixtures = generateRoundRobinFixtures uuid tournament participants;
        pairs = filter (\<lambda>(i, j). i < j) (List.product [0..<n] [0..<n])
    in length fixtures = n * (n - 1) div 2 \<and>
       distinct pairs \<and> set pairs = {(i, j). i < j \<and> j < n} \<and>
       map (\<lambda>m. (m_Participant1ID m, m_Participant2ID m)) fixtures =
         map (\<lambda>(i, j). (Some (p_ID (participants ! i)), Some (p_ID (participants ! j)))) pairs \<and>
       (\<forall>m \<in> set fixtures. m_RoundNumber m = 1) \<and>
       map m_MatchNumber fixtures = map int [1..<length fixtures + 1])"
proof -
  define n where "n = length participants"
  define pairs where "pairs = filter (\<lambda>(i, j). i < j) (List.product [0..<n] [0..<n])"
  define fixtures where "fixtures = generateRoundRobinFixtures uuid tournament participants"
  have fx: "fixtures = map (\<lambda>(k, ij). rrMatch uuid tournament participants k ij) (enumerate 0 pairs)"
    unfolding fixtures_def pairs_def n_def by (rule generateRoundRobinFixtures_eq)
  have len: "length fixtures = length pairs" by (simp add: fx)
  have "length pairs = n * (n - 1) div 2"
    unfolding pairs_def allPairs_concat by (rule length_allPairs)
  moreover have "distinct pairs"
    unfolding pairs_def by (intro distinct_filter distinct_product) simp_all
  moreover have "set pairs = {(i, j). i < j \<and> j < n}"
    unfolding pairs_def by auto
  moreover have "map (\<lambda>m. (m_Participant1ID m, m_Participant2ID m)) fixtures =
         map (\<lambda>(i, j). (Some (p_ID (participants ! i)), Some (p_ID (participants ! j)))) pairs"
    unfolding fx
    using map_enumerate_snd [of "\<lambda>p. (Some (p_ID (participants ! fst p)),
                                         Some (p_ID (participants ! snd p)))" 0 pairs]
    by (simp add: o_def split_def rrMatch_def)
  moreover have "\<forall>m \<in> set fixtures. m_RoundNumber m = 1"
    unfolding fx by (auto simp: rrMatch_def)
  moreover have "map m_MatchNumber fixtures = map int [1..<length fixtures + 1]"
  proof -
    have "map m_MatchNumber fixtures = map (\<lambda>k. int k + 1) [0..<length pairs]"
      unfolding fx
      using map_enumerate_fst [of "\<lambda>k. int k + 1" 0 pairs]
      by (simp add: o_def split_def rrMatch_def)
    also have "\<dots> = map int (map Suc [0..<length pairs])"
      by (simp add: o_def add.commute)
    also have "map Suc [0..<length pairs] = [1..<length fixtures + 1]"
      unfolding len by (simp only: map_Suc_upt) simp
    finally show ?thesis .
  qed
  ultimately show ?thesis
    unfolding Let_def n_def [symmetric] pairs_def [symmetric] fixtures_def [symmetric]
    using len by simp
qed

theorem C7_round_robin_witness:
  "2 \<le> length (exampleParticipants 3) \<and>
   (let n = length (exampleParticipants 3);
        fixtures = generateRoundRobinFixtures exampleUUID (exampleTournament FormatRoundRobin 3)
                     (exampleParticipants 3);
        pairs = filter (\<lambda>(i, j). i < j) (List.product [0..<n] [0..<n])
    in length fixtures = n * (n - 1) div 2 \<and>
       distinct pairs \<and> set pairs = {(i, j). i < j \<and> j < n} \<and>
       map (\<lambda>m. (m_Participant1ID m, m_Participant2ID m)) fixtures =
         map (\<lambda>(i, j). (Some (p_ID (exampleParticipants 3 ! i)),
                         Some (p_ID (exampleParticipants 3 ! j)))) pairs \<and>
       (\<forall>m \<in> set fixtures. m_RoundNumber m = 1) \<and>
       map m_MatchNumber fixtures = map int [1..<length fixtures + 1])"
proof -
  have h: "2 \<le> length (exampleParticipants 3)"
    by (simp add: exampleParticipants_def)
  show ?thesis
    by (rule conjI [OF h C7_round_robin [OF h]])
qed

lemma example_round_robin_3:
  "map (\<lambda>m. (m_MatchNumber m, m_Participant1ID m, m_Participant2ID m))
     (generateRoundRobinFixtures exampleUUID t (exampleParticipants 3)) =
   [(1, Some ''p'', Some ''pp''), (2, Some ''p'', Some ''ppp''), (3, Some ''pp'', Some ''ppp'')]"
  by code_simp

subsection \<open>Seeding\<close>









text \<open>
  The comparison of manual seeding is a strict weak order, which is what \<^verbatim>\<open>sort.Slice\<close>
  asks of it, and its contract can be met for every input: the insertion sort meets it.
\<close>

lemma manualLess_irrefl: "\<not> manualLess seeds a a"
  by (simp add: manualLess_def split: option.splits)

lemma manualLess_trans:
  "manualLess seeds a b \<Longrightarrow> manualLess seeds b c \<Longrightarrow> manualLess seeds a c"
  by (auto simp: manualLess_def split: option.splits)

lemma manualLess_asym: "manualLess seeds a b \<Longrightarrow> \<not> manualLess seeds b a"
  using manualLess_trans manualLess_irrefl by blast

lemma manualLess_incomparable_trans:
  "\<not> manualLess seeds a b \<Longrightarrow> \<not> manualLess seeds b c \<Longrightarrow> \<not> manualLess seeds a c"
  by (auto simp: manualLess_def split: option.splits)

lemma mset_insertBy: "mset (insertBy lt x xs) = add_mset x (mset xs)"
  by (induction xs) simp_all

lemma set_insertBy: "set (insertBy lt x xs) = insert x (set xs)"
  by (induction xs) auto

lemma mset_fold_insertBy: "mset (fold (insertBy lt) xs acc) = mset xs + mset acc"
  by (induction xs arbitrary: acc) (simp_all add: mset_insertBy)

lemma sorted_insertBy_manual:
  "sorted_wrt (\<lambda>a b. \<not> manualLess seeds b a) xs \<Longrightarrow>
   sorted_wrt (\<lambda>a b. \<not> manualLess seeds b a) (insertBy (manualLess seeds) x xs)"
proof (induction xs)
  case Nil
  then show ?case by simp
next
  case (Cons y ys)
  show ?case
  proof (cases "manualLess seeds x y")
    case True
    have "\<not> manualLess seeds z x" if "z \<in> set (y # ys)" for z
    proof
      assume "manualLess seeds z x"
      then have zy: "manualLess seeds z y" using True by (rule manualLess_trans)
      show False
      proof (cases "z = y")
        case True
        then show False using zy manualLess_irrefl by simp
      next
        case False
        then have "z \<in> set ys" using that by simp
        then show False using Cons.prems zy by simp
      qed
    qed
    then show ?thesis using True Cons.prems by simp
  next
    case False
    then show ?thesis using Cons by (auto simp: set_insertBy)
  qed
qed

lemma sorted_fold_insertBy_manual:
  "sorted_wrt (\<lambda>a b. \<not> manualLess seeds b a) acc \<Longrightarrow>
   sorted_wrt (\<lambda>a b. \<not> manualLess seeds b a) (fold (insertBy (manualLess seeds)) xs acc)"
  by (induction xs arbitrary: acc) (simp_all add: sorted_insertBy_manual)

lemma insertionSort_contract:
  "sortSliceContract (manualLess seeds) xs (insertionSort (manualLess seeds) xs)"
  by (simp add: sortSliceContract_def insertionSort_def mset_fold_insertBy
      sorted_fold_insertBy_manual)



lemma example_manual_seeding:
  "map (\<lambda>p. (p_ID p, p_Seed p))
     (applySeedingMethod insertionSort (\<lambda>i. i) (exampleParticipants 3) ''manual''
        exampleSeedingData) =
   [(''ppp'', Some 1), (''p'', Some 2), (''pp'', Some 3)]"
  by code_simp

subsection \<open>Single elimination\<close>

lemma eliminationMatch_step:
  "eliminationMatch uuid t bp pp n r i (fx, int (length fx) + 1) =
     (fx @ [seMatch uuid t bp pp n (length fx) (r, i)], int (length fx + 1) + 1)"
  by (simp add: eliminationMatch_def seMatch_def Let_def)

lemma fold_eliminationMatch:
  "fold (eliminationMatch uuid t bp pp n r) is (fx, int (length fx) + 1) =
     (fx @ map (\<lambda>(k, i). seMatch uuid t bp pp n k (r, i)) (enumerate (length fx) is),
      int (length fx + length is) + 1)"
proof (induction "is" arbitrary: fx)
  case Nil
  then show ?case by simp
next
  case (Cons i "is")
  have "fold (eliminationMatch uuid t bp pp n r) (i # is) (fx, int (length fx) + 1) =
        fold (eliminationMatch uuid t bp pp n r) is
          (fx @ [seMatch uuid t bp pp n (length fx) (r, i)],
           int (length (fx @ [seMatch uuid t bp pp n (length fx) (r, i)])) + 1)"
    by (simp only: fold_simps eliminationMatch_step) simp
  also note Cons.IH [of "fx @ [seMatch uuid t bp pp n (length fx) (r, i)]"]
  finally show ?case by simp
qed

lemma fold_eliminationRound:
  "fold (\<lambda>r. fold (eliminationMatch uuid t bp pp n r) (g r)) rs (fx, int (length fx) + 1) =
     (fx @ map (\<lambda>(k, ri). seMatch uuid t bp pp n k ri)
              (enumerate (length fx) (concat (map (\<lambda>r. map (Pair r) (g r)) rs))),
      int (length fx + length (concat (map (\<lambda>r. map (Pair r) (g r)) rs))) + 1)"
proof (induction rs arbitrary: fx)
  case Nil
  then show ?case by simp
next
  case (Cons r rs)
  let ?fx1 = "fx @ map (\<lambda>(k, i). seMatch uuid t bp pp n k (r, i)) (enumerate (length fx) (g r))"
  have len: "length ?fx1 = length fx + length (g r)" by simp
  have "fold (\<lambda>r. fold (eliminationMatch uuid t bp pp n r) (g r)) (r # rs) (fx, int (length fx) + 1) =
        fold (\<lambda>r. fold (eliminationMatch uuid t bp pp n r) (g r)) rs (?fx1, int (length ?fx1) + 1)"
    by (simp only: fold_simps fold_eliminationMatch len)
  also note Cons.IH [of ?fx1]
  finally show ?case
    by (simp add: enumerate_append_eq enumerate_map_snd split_def o_def add.commute)
qed

lemma elimination_loops:
  "fst (fold (eliminationRound uuid t bp pp n (2 ^ R)) [1..<R + 1] ([], 1)) =
     map (\<lambda>(k, ri). seMatch uuid t bp pp n k ri) (enumerate 0 (seSlots R))"
proof -
  have "eliminationRound uuid t bp pp n (2 ^ R) =
        (\<lambda>r. fold (eliminationMatch uuid t bp pp n r) [0..<2 ^ R div 2 ^ r])"
    by (intro ext) (simp add: eliminationRound_def)
  then show ?thesis
    using fold_eliminationRound [of uuid t bp pp n "\<lambda>r. [0..<2 ^ R div 2 ^ r]" "[1..<R + 1]" "[]"]
    by (simp add: seSlots_def)
qed

lemma sum_list_round_sizes:
  "k \<le> R \<Longrightarrow> sum_list (map (\<lambda>r. (2::nat) ^ R div 2 ^ r) [1..<k + 1]) = 2 ^ R - 2 ^ (R - k)"
proof (induction k)
  case 0
  then show ?case by simp
next
  case (Suc k)
  have d: "(2::nat) ^ R div 2 ^ Suc k = 2 ^ (R - Suc k)"
    using Suc.prems by (simp add: power_diff del: power_Suc)
  have h: "(2::nat) ^ (R - k) = 2 * 2 ^ (R - Suc k)"
    using Suc.prems by (metis Suc_diff_Suc Suc_le_lessD power_Suc)
  have le: "(2::nat) ^ (R - k) \<le> 2 ^ R" by simp
  have "sum_list (map (\<lambda>r. (2::nat) ^ R div 2 ^ r) [1..<Suc k + 1]) =
        (2 ^ R - 2 ^ (R - k)) + 2 ^ (R - Suc k)"
    using Suc by (simp add: d del: power_Suc)
  also have "\<dots> = 2 ^ R - 2 ^ (R - Suc k)"
    using h le by linarith
  finally show ?case .
qed

lemma length_seSlots: "length (seSlots R) = 2 ^ R - 1"
  using sum_list_round_sizes [of R R]
  by (simp add: seSlots_def length_concat o_def)

lemma set_seSlots:
  "set (seSlots R) = {(r, i). 1 \<le> r \<and> r \<le> R \<and> i < 2 ^ R div 2 ^ r}"
  by (auto simp: seSlots_def)

lemma unlinked_simps:
  "m_ID (unlinked m) = m_ID m" "m_RoundNumber (unlinked m) = m_RoundNumber m"
  "m_Participant1ID (unlinked m) = m_Participant1ID m"
  "m_Participant2ID (unlinked m) = m_Participant2ID m"
  "m_MatchNumber (unlinked m) = m_MatchNumber m"
  by (simp_all add: unlinked_def)

lemma length_setNext: "length (setNext src tgt ms) = length ms"
  by (simp add: setNext_def)

lemma unlinked_setNext: "map unlinked (setNext src tgt ms) = map unlinked ms"
proof (cases "src < length ms")
  case True
  have "map unlinked (setNext src tgt ms) = (map unlinked ms)[src := unlinked (ms ! src)]"
    by (simp add: setNext_def map_update unlinked_def)
  also have "\<dots> = map unlinked ms"
    using True by (metis list_update_id nth_map)
  finally show ?thesis .
next
  case False
  then show ?thesis by (simp add: setNext_def list_update_beyond not_less)
qed

lemma unlinked_linkStep: "map unlinked (linkStep cur nxt i ms) = map unlinked ms"
  by (simp add: linkStep_def Let_def unlinked_setNext)

lemma unlinked_fold_linkStep: "map unlinked (fold (linkStep cur nxt) is ms) = map unlinked ms"
  by (induction "is" arbitrary: ms) (simp_all add: unlinked_linkStep)

lemma unlinked_linkRound: "map unlinked (linkRound cur nxt ms) = map unlinked ms"
  by (simp add: linkRound_def unlinked_fold_linkStep)

lemma unlinked_fold_linkRound:
  "map unlinked (fold (\<lambda>r. linkRound (c r) (d r)) rs ms) = map unlinked ms"
  by (induction rs arbitrary: ms) (simp_all add: unlinked_linkRound)

lemma unlinked_linkBracketProgression:
  "map unlinked (linkBracketProgression ms R) = map unlinked ms"
  by (simp add: linkBracketProgression_def unlinked_fold_linkRound)

lemma length_linkBracketProgression: "length (linkBracketProgression ms R) = length ms"
  using unlinked_linkBracketProgression [of ms R] by (metis length_map)

lemma nth_unlinked_link:
  "k < length ms \<Longrightarrow> unlinked (linkBracketProgression ms R ! k) = unlinked (ms ! k)"
  using unlinked_linkBracketProgression [of ms R] length_linkBracketProgression [of ms R]
  by (metis nth_map)

text \<open>What the generator returns for at least one participant.\<close>

lemma ceillog2_ge_1: "2 \<le> n \<Longrightarrow> 1 \<le> ceillog2 n"
  using ceillog2_ge_iff [of n 1] by simp

lemma generate_single_elimination:
  assumes n: "2 \<le> length ps"
  shows "\<exists>bp. createBracketPositions (2 ^ ceillog2 (length ps)) = Some bp \<and>
           length bp = 2 ^ ceillog2 (length ps) \<and>
           set bp = {0..<2 ^ ceillog2 (length ps)} \<and>
           generateSingleEliminationFixtures uuid t ps =
             Inr (linkBracketProgression
                    (map (\<lambda>(k, ri). seMatch uuid t bp (placeParticipants ps) (length ps) k ri)
                       (enumerate 0 (seSlots (ceillog2 (length ps)))))
                    (ceillog2 (length ps)))"
proof -
  let ?R = "ceillog2 (length ps)"
  from ceillog2_ge_1 [OF n] obtain j where j: "?R = Suc j" by (cases ?R) auto
  from cbp_pow2 [of j] obtain bp where bp:
    "createBracketPositions (2 ^ ?R) = Some bp" "length bp = 2 ^ ?R" "set bp = {0..<2 ^ ?R}"
    unfolding j by blast
  have "generateSingleEliminationFixtures uuid t ps =
             Inr (linkBracketProgression
                    (map (\<lambda>(k, ri). seMatch uuid t bp (placeParticipants ps) (length ps) k ri)
                       (enumerate 0 (seSlots ?R))) ?R)"
  proof -
    have bpi: "createBracketPositions (int (2 ^ ?R)) = Some bp"
      using bp(1) by simp
    have ne: "length ps \<noteq> 0" using n by (cases ps) simp_all
    show ?thesis
      by (simp only: generateSingleEliminationFixtures_def Let_def elimination_loops bpi
          option.case ne if_False)
  qed
  with bp show ?thesis by blast
qed

lemma single_elimination_count:
  assumes n: "2 \<le> length ps"
  shows "\<exists>fs. generateSingleEliminationFixtures uuid t ps = Inr fs \<and>
           length fs = 2 ^ ceillog2 (length ps) - 1 \<and>
           m_RoundNumber ` set fs = int ` {1..ceillog2 (length ps)}"
proof -
  let ?R = "ceillog2 (length ps)"
  from generate_single_elimination [OF n, of uuid t] obtain bp where
    gen: "generateSingleEliminationFixtures uuid t ps =
             Inr (linkBracketProgression
                    (map (\<lambda>(k, ri). seMatch uuid t bp (placeParticipants ps) (length ps) k ri)
                       (enumerate 0 (seSlots ?R))) ?R)"
    by blast
  let ?ms = "map (\<lambda>(k, ri). seMatch uuid t bp (placeParticipants ps) (length ps) k ri)
                       (enumerate 0 (seSlots ?R))"
  let ?fs = "linkBracketProgression ?ms ?R"
  have len: "length ?fs = 2 ^ ?R - 1"
    by (simp add: length_linkBracketProgression length_seSlots)
  have "map m_RoundNumber ?fs = map m_RoundNumber (map unlinked ?fs)"
    by (simp add: o_def unlinked_simps)
  also have "\<dots> = map m_RoundNumber (map unlinked ?ms)"
    by (simp only: unlinked_linkBracketProgression)
  also have "\<dots> = map (\<lambda>x. int (fst (snd x))) (enumerate 0 (seSlots ?R))"
    by (simp add: o_def unlinked_simps split_def seMatch_def)
  also have "\<dots> = map (\<lambda>ri. int (fst ri)) (seSlots ?R)"
    by (rule map_enumerate_snd [of "\<lambda>ri. int (fst ri)"])
  finally have rounds: "map m_RoundNumber ?fs = map (\<lambda>ri. int (fst ri)) (seSlots ?R)" .
  have "m_RoundNumber ` set ?fs = set (map m_RoundNumber ?fs)" by simp
  also have "\<dots> = (\<lambda>ri. int (fst ri)) ` set (seSlots ?R)"
    unfolding rounds by simp
  also have "\<dots> = int ` {1..?R}"
  proof (intro equalityI subsetI)
    fix x assume "x \<in> (\<lambda>ri. int (fst ri)) ` set (seSlots ?R)"
    then show "x \<in> int ` {1..?R}" by (auto simp: set_seSlots)
  next
    fix x assume "x \<in> int ` {1..?R}"
    then obtain r where r: "x = int r" "1 \<le> r" "r \<le> ?R" by auto
    then have "(2::nat) ^ ?R div 2 ^ r = 2 ^ (?R - r)"
      by (simp add: power_diff)
    then have "(0::nat) < 2 ^ ?R div 2 ^ r"
      by simp
    then have "(r, 0) \<in> set (seSlots ?R)" using r by (simp add: set_seSlots)
    then show "x \<in> (\<lambda>ri. int (fst ri)) ` set (seSlots ?R)" using r(1) by force
  qed
  finally show ?thesis using gen len by blast
qed

lemma placeParticipants_snoc:
  "placeParticipants (xs @ [x]) =
     (case p_Seed x of
        Some seed \<Rightarrow> (placeParticipants xs)(seed - 1 \<mapsto> x)
      | None \<Rightarrow> (placeParticipants xs)(int (length xs) \<mapsto> x))"
  by (cases "p_Seed x") (simp_all add: placeParticipants_def enumerate_append_eq)

lemma placeParticipants_seeded:
  "\<forall>p \<in> set ps. p_Seed p \<noteq> None \<Longrightarrow> distinct (map p_Seed ps) \<Longrightarrow>
   (placeParticipants ps pos = Some p) = (p \<in> set ps \<and> p_Seed p = Some (pos + 1))"
proof (induction ps rule: rev_induct)
  case Nil
  then show ?case by (simp add: placeParticipants_def)
next
  case (snoc x xs)
  from snoc.prems obtain s where s: "p_Seed x = Some s" by auto
  have IH: "(placeParticipants xs pos = Some p) = (p \<in> set xs \<and> p_Seed p = Some (pos + 1))"
    using snoc by simp
  have fresh: "\<forall>q \<in> set xs. p_Seed q \<noteq> Some s"
    using snoc.prems(2) s by force
  show ?case
  proof (cases "pos = s - 1")
    case True
    then have "placeParticipants (xs @ [x]) pos = Some x"
      by (simp add: placeParticipants_snoc s)
    moreover have "pos + 1 = s" using True by simp
    ultimately show ?thesis using fresh s by auto
  next
    case False
    then have "placeParticipants (xs @ [x]) pos = placeParticipants xs pos"
      by (simp add: placeParticipants_snoc s)
    moreover have "p_Seed x \<noteq> Some (pos + 1)" using False s by auto
    ultimately show ?thesis using IH by auto
  qed
qed

lemma seeds_one_to_n:
  assumes "mset (map p_Seed ps) = mset (map (\<lambda>k. Some (int k)) [1..<length ps + 1])"
  shows "distinct (map p_Seed ps)"
    and "set (map p_Seed ps) = (\<lambda>k. Some (int k)) ` {1..length ps}"
proof -
  have "distinct (map (\<lambda>k. Some (int k)) [1..<length ps + 1])"
    by (simp add: distinct_map inj_on_def)
  then show "distinct (map p_Seed ps)"
    using assms by (metis mset_eq_imp_distinct_iff)
  have "set (map p_Seed ps) = set (map (\<lambda>k. Some (int k)) [1..<length ps + 1])"
    using assms by (rule mset_eq_setD)
  also have "\<dots> = (\<lambda>k. Some (int k)) ` {1..length ps}"
  proof -
    have "set [1..<length ps + 1] = {1..length ps}" by auto
    then show ?thesis by (simp only: set_map)
  qed
  finally show "set (map p_Seed ps) = (\<lambda>k. Some (int k)) ` {1..length ps}" .
qed

lemma seed_range:
  assumes "mset (map p_Seed ps) = mset (map (\<lambda>k. Some (int k)) [1..<length ps + 1])"
    and "p \<in> set ps"
  shows "\<exists>k. p_Seed p = Some (int k) \<and> 1 \<le> k \<and> k \<le> length ps"
proof -
  have "p_Seed p \<in> set (map p_Seed ps)" using assms(2) by simp
  then show ?thesis unfolding seeds_one_to_n(2) [OF assms(1)] by auto
qed

lemma slotID_seededSlot:
  assumes seeds: "mset (map p_Seed ps) = mset (map (\<lambda>k. Some (int k)) [1..<length ps + 1])"
  shows "slotID (placeParticipants ps) (length ps) pos = seededSlot ps pos"
proof -
  have some: "\<forall>p \<in> set ps. p_Seed p \<noteq> None"
    using seed_range [OF seeds] by auto
  note place = placeParticipants_seeded [OF some seeds_one_to_n(1) [OF seeds]]
  show ?thesis
  proof (cases "find (\<lambda>p. p_Seed p = Some (pos + 1)) ps")
    case None
    then have "\<forall>p \<in> set ps. p_Seed p \<noteq> Some (pos + 1)"
      by (simp add: find_None_iff)
    then have "placeParticipants ps pos = None"
      using place [of pos] by (metis not_Some_eq)
    then show ?thesis using None by (simp add: slotID_def seededSlot_def)
  next
    case (Some p)
    then have p: "p \<in> set ps" "p_Seed p = Some (pos + 1)"
      by (auto simp: find_Some_iff)
    then have "placeParticipants ps pos = Some p" using place [of pos p] by simp
    moreover have "pos < int (length ps)"
      using seed_range [OF seeds p(1)] p(2) by auto
    ultimately show ?thesis using Some by (simp add: slotID_def seededSlot_def)
  qed
qed

lemma seededSlot_bye:
  assumes seeds: "mset (map p_Seed ps) = mset (map (\<lambda>k. Some (int k)) [1..<length ps + 1])"
    and pos: "int (length ps) \<le> pos"
  shows "seededSlot ps pos = None"
proof -
  have "\<forall>p \<in> set ps. p_Seed p \<noteq> Some (pos + 1)"
    using seed_range [OF seeds] pos by fastforce
  then have "find (\<lambda>p. p_Seed p = Some (pos + 1)) ps = None"
    by (simp add: find_None_iff)
  then show ?thesis by (simp add: seededSlot_def)
qed

lemma seededSlot_participant:
  assumes seeds: "mset (map p_Seed ps) = mset (map (\<lambda>k. Some (int k)) [1..<length ps + 1])"
    and p: "p \<in> set ps" "p_Seed p = Some s"
  shows "seededSlot ps (s - 1) = Some (p_ID p)"
proof -
  have some: "\<forall>p \<in> set ps. p_Seed p \<noteq> None"
    using seed_range [OF seeds] by auto
  have "placeParticipants ps (s - 1) = Some p"
    using placeParticipants_seeded [OF some seeds_one_to_n(1) [OF seeds], of "s - 1" p] p by simp
  moreover have "s - 1 < int (length ps)"
    using seed_range [OF seeds p(1)] p(2) by auto
  ultimately have "slotID (placeParticipants ps) (length ps) (s - 1) = Some (p_ID p)"
    by (simp add: slotID_def)
  then show ?thesis by (simp add: slotID_seededSlot [OF seeds])
qed

lemma seSlots_split:
  assumes "1 \<le> R"
  shows "seSlots R = map (Pair 1) [0..<2 ^ R div 2] @
           concat (map (\<lambda>r. map (Pair r) [0..<2 ^ R div 2 ^ r]) [2..<R + 1])"
proof -
  have "[1..<R + 1] = 1 # [Suc 1..<R + 1]"
    using assms by (intro upt_conv_Cons) simp
  then have "[1..<R + 1] = 1 # [2..<R + 1]"
    by (simp only: Suc_1)
  then show ?thesis by (simp add: seSlots_def)
qed

lemma seSlots_first_round:
  assumes "1 \<le> R" "i < 2 ^ R div 2"
  shows "seSlots R ! i = (1, i)"
  using assms by (simp add: seSlots_split nth_append)

lemma seSlots_later_rounds:
  assumes "1 \<le> R" "2 ^ R div 2 \<le> k" "k < length (seSlots R)"
  shows "2 \<le> fst (seSlots R ! k)"
proof -
  let ?rest = "concat (map (\<lambda>r. map (Pair r) [0..<2 ^ R div 2 ^ r]) [2..<R + 1])"
  have "seSlots R ! k = ?rest ! (k - 2 ^ R div 2)"
    using assms by (simp add: seSlots_split [OF assms(1)] nth_append)
  moreover have "k - 2 ^ R div 2 < length ?rest"
    using assms(2,3) by (simp add: seSlots_split [OF assms(1)])
  ultimately have "seSlots R ! k \<in> set ?rest" by (metis nth_mem)
  then show ?thesis by auto
qed

lemma unlinked_eq_fields:
  assumes "unlinked a = unlinked b"
  shows "m_RoundNumber a = m_RoundNumber b" "m_Participant1ID a = m_Participant1ID b"
    "m_Participant2ID a = m_Participant2ID b" "m_ID a = m_ID b"
  using assms unlinked_simps by metis+

text \<open>
  Claim C10: for \<open>n \<ge> 2\<close> participants whose seeds are a rearrangement of \<open>1, \<dots>, n\<close>,
  every match of round 2 or later has both participant slots empty; the matches of
  round 1 are the first \<open>targetSize / 2\<close> fixtures, and match \<open>i\<close> of round 1 holds what
  stands at the bracket positions \<open>bracketPositions[2i]\<close> and \<open>bracketPositions[2i + 1]\<close>,
  where the participant with seed \<open>s\<close> stands at position \<open>s - 1\<close> and a position
  \<open>\<ge> n\<close> is empty (a bye).
\<close>

theorem C10_single_elimination_placement:
  "2 \<le> length participants \<Longrightarrow>
   mset (map p_Seed participants) =
     mset (map (\<lambda>k. Some (int k)) [1..<length participants + 1]) \<Longrightarrow>
   \<exists>fixtures bracketPositions.
     generateSingleEliminationFixtures uuid tournament participants = Inr fixtures \<and>
     createBracketPositions (2 ^ ceillog2 (length participants)) = Some bracketPositions \<and>
     (\<forall>m \<in> set fixtures. 2 \<le> m_RoundNumber m \<longrightarrow>
        m_Participant1ID m = None \<and> m_Participant2ID m = None) \<and>
     (\<forall>m \<in> set fixtures. m_RoundNumber m = 1 \<longrightarrow>
        (\<exists>i < 2 ^ ceillog2 (length participants) div 2. m = fixtures ! i)) \<and>
     (\<forall>i < 2 ^ ceillog2 (length participants) div 2.
        m_RoundNumber (fixtures ! i) = 1 \<and>
        m_Participant1ID (fixtures ! i) = seededSlot participants (bracketPositions ! (2 * i)) \<and>
        m_Participant2ID (fixtures ! i) =
          seededSlot participants (bracketPositions ! (2 * i + 1))) \<and>
     (\<forall>pos. int (length participants) \<le> pos \<longrightarrow> seededSlot participants pos = None) \<and>
     (\<forall>p \<in> set participants. \<forall>s. p_Seed p = Some s \<longrightarrow>
        seededSlot participants (s - 1) = Some (p_ID p))"
proof -
  assume n: "2 \<le> length participants"
    and seeds: "mset (map p_Seed participants) =
      mset (map (\<lambda>k. Some (int k)) [1..<length participants + 1])"
  let ?R = "ceillog2 (length participants)"
  from generate_single_elimination [OF n, of uuid tournament] obtain bp where
    bp: "createBracketPositions (2 ^ ?R) = Some bp"
    and gen: "generateSingleEliminationFixtures uuid tournament participants =
             Inr (linkBracketProgression
                    (map (\<lambda>(k, ri). seMatch uuid tournament bp (placeParticipants participants)
                                      (length participants) k ri)
                       (enumerate 0 (seSlots ?R))) ?R)"
    by blast
  define ms where "ms = map (\<lambda>(k, ri). seMatch uuid tournament bp (placeParticipants participants)
                                      (length participants) k ri) (enumerate 0 (seSlots ?R))"
  define fs where "fs = linkBracketProgression ms ?R"
  have R1: "1 \<le> ?R" by (rule ceillog2_ge_1 [OF n])
  have len: "length fs = length (seSlots ?R)" "length ms = length (seSlots ?R)"
    by (simp_all add: fs_def ms_def length_linkBracketProgression)
  have nth_ms: "ms ! k = seMatch uuid tournament bp (placeParticipants participants)
                           (length participants) k (seSlots ?R ! k)"
    if "k < length (seSlots ?R)" for k
    using that by (simp add: ms_def nth_enumerate_eq)
  have un: "unlinked (fs ! k) = unlinked (ms ! k)" if "k < length (seSlots ?R)" for k
    unfolding fs_def using that len(2) by (intro nth_unlinked_link) simp
  have round: "m_RoundNumber (fs ! k) = int (fst (seSlots ?R ! k))"
    if "k < length (seSlots ?R)" for k
    using unlinked_eq_fields(1) [OF un [OF that]] nth_ms [OF that] by (simp add: seMatch_def)
  have p1: "m_Participant1ID (fs ! k) =
      (if fst (seSlots ?R ! k) = 1
       then seededSlot participants (bp ! (snd (seSlots ?R ! k) * 2)) else None)"
    if "k < length (seSlots ?R)" for k
    using unlinked_eq_fields(2) [OF un [OF that]] nth_ms [OF that]
    by (simp add: seMatch_def slotID_seededSlot [OF seeds])
  have p2: "m_Participant2ID (fs ! k) =
      (if fst (seSlots ?R ! k) = 1
       then seededSlot participants (bp ! (snd (seSlots ?R ! k) * 2 + 1)) else None)"
    if "k < length (seSlots ?R)" for k
    using unlinked_eq_fields(3) [OF un [OF that]] nth_ms [OF that]
    by (simp add: seMatch_def slotID_seededSlot [OF seeds])
  have half: "2 ^ ?R div 2 \<le> length (seSlots ?R)"
    using R1 by (simp add: seSlots_split)
  have later: "\<forall>m \<in> set fs. 2 \<le> m_RoundNumber m \<longrightarrow>
        m_Participant1ID m = None \<and> m_Participant2ID m = None"
  proof (intro ballI impI)
    fix m assume "m \<in> set fs" and r: "2 \<le> m_RoundNumber m"
    then obtain k where k: "k < length (seSlots ?R)" "m = fs ! k"
      using len(1) by (metis in_set_conv_nth)
    have "fst (seSlots ?R ! k) \<noteq> 1" using r round [OF k(1)] k(2) by auto
    then show "m_Participant1ID m = None \<and> m_Participant2ID m = None"
      using p1 [OF k(1)] p2 [OF k(1)] k(2) by simp
  qed
  have first_only: "\<forall>m \<in> set fs. m_RoundNumber m = 1 \<longrightarrow> (\<exists>i < 2 ^ ?R div 2. m = fs ! i)"
  proof (intro ballI impI)
    fix m assume "m \<in> set fs" and r: "m_RoundNumber m = 1"
    then obtain k where k: "k < length (seSlots ?R)" "m = fs ! k"
      using len(1) by (metis in_set_conv_nth)
    have "k < 2 ^ ?R div 2"
    proof (rule ccontr)
      assume "\<not> k < 2 ^ ?R div 2"
      then have "2 \<le> fst (seSlots ?R ! k)"
        using seSlots_later_rounds [OF R1 _ k(1)] by simp
      then show False using r round [OF k(1)] k(2) by simp
    qed
    then show "\<exists>i < 2 ^ ?R div 2. m = fs ! i" using k(2) by blast
  qed
  have first: "\<forall>i < 2 ^ ?R div 2.
        m_RoundNumber (fs ! i) = 1 \<and>
        m_Participant1ID (fs ! i) = seededSlot participants (bp ! (2 * i)) \<and>
        m_Participant2ID (fs ! i) = seededSlot participants (bp ! (2 * i + 1))"
  proof (intro allI impI)
    fix i :: nat assume i: "i < 2 ^ ?R div 2"
    then have k: "i < length (seSlots ?R)" using half by simp
    have slot: "seSlots ?R ! i = (1, i)" by (rule seSlots_first_round [OF R1 i])
    show "m_RoundNumber (fs ! i) = 1 \<and>
        m_Participant1ID (fs ! i) = seededSlot participants (bp ! (2 * i)) \<and>
        m_Participant2ID (fs ! i) = seededSlot participants (bp ! (2 * i + 1))"
      using round [OF k] p1 [OF k] p2 [OF k] by (simp add: slot mult.commute)
  qed
  have byes: "\<forall>pos. int (length participants) \<le> pos \<longrightarrow> seededSlot participants pos = None"
    using seededSlot_bye [OF seeds] by blast
  have placed: "\<forall>p \<in> set participants. \<forall>s. p_Seed p = Some s \<longrightarrow>
        seededSlot participants (s - 1) = Some (p_ID p)"
    using seededSlot_participant [OF seeds] by blast
  from gen bp later first_only first byes placed show ?thesis
    unfolding fs_def [symmetric] ms_def [symmetric] fs_def [symmetric] by blast
qed

lemma example_seeds:
  "mset (map p_Seed (exampleParticipants n)) =
     mset (map (\<lambda>k. Some (int k)) [1..<length (exampleParticipants n) + 1])"
  by (simp add: exampleParticipants_def exampleParticipant_def o_def)

theorem C10_single_elimination_placement_witness:
  "2 \<le> length (exampleParticipants 3) \<and>
   mset (map p_Seed (exampleParticipants 3)) =
     mset (map (\<lambda>k. Some (int k)) [1..<length (exampleParticipants 3) + 1]) \<and>
   (\<exists>fixtures bracketPositions.
     generateSingleEliminationFixtures exampleUUID (exampleTournament FormatSingleElimination 4)
       (exampleParticipants 3) = Inr fixtures \<and>
     createBracketPositions (2 ^ ceillog2 (length (exampleParticipants 3))) =
       Some bracketPositions \<and>
     (\<forall>m \<in> set fixtures. 2 \<le> m_RoundNumber m \<longrightarrow>
        m_Participant1ID m = None \<and> m_Participant2ID m = None) \<and>
     (\<forall>m \<in> set fixtures. m_RoundNumber m = 1 \<longrightarrow>
        (\<exists>i < 2 ^ ceillog2 (length (exampleParticipants 3)) div 2. m = fixtures ! i)) \<and>
     (\<forall>i < 2 ^ ceillog2 (length (exampleParticipants 3)) div 2.
        m_RoundNumber (fixtures ! i) = 1 \<and>
        m_Participant1ID (fixtures ! i) =
          seededSlot (exampleParticipants 3) (bracketPositions ! (2 * i)) \<and>
        m_Participant2ID (fixtures ! i) =
          seededSlot (exampleParticipants 3) (bracketPositions ! (2 * i + 1))) \<and>
     (\<forall>pos. int (length (exampleParticipants 3)) \<le> pos \<longrightarrow>
        seededSlot (exampleParticipants 3) pos = None) \<and>
     (\<forall>p \<in> set (exampleParticipants 3). \<forall>s. p_Seed p = Some s \<longrightarrow>
        seededSlot (exampleParticipants 3) (s - 1) = Some (p_ID p)))"
proof -
  have h1: "2 \<le> length (exampleParticipants 3)"
    by (simp add: exampleParticipants_def)
  have h2: "mset (map p_Seed (exampleParticipants 3)) =
     mset (map (\<lambda>k. Some (int k)) [1..<length (exampleParticipants 3) + 1])"
    by (rule example_seeds)
  show ?thesis
    by (intro conjI h1 h2 C10_single_elimination_placement [OF h1 h2])
qed

lemma example_single_elimination_3:
  "map (\<lambda>m. (m_RoundNumber m, m_Participant1ID m, m_Participant2ID m, m_NextMatchID m))
     (projr (generateSingleEliminationFixtures exampleUUID t (exampleParticipants 3))) =
   [(1, Some ''p'', None, Some ''mmm''), (1, Some ''pp'', Some ''ppp'', Some ''mmm''),
    (2, None, None, None)]"
  by code_simp

text \<open>
  Claim C1 says that \<open>n\<close> participants give \<open>n - 1\<close> matches. For three participants the
  generator returns three matches (rounds 1 and 2): it creates \<open>2 ^ rounds - 1\<close> matches,
  one for every pair of bracket positions, byes included. The capacity calculation
  counts \<open>n - 1\<close> matches: with two match slots it admits three participants, and the
  fixtures generated for them are then rejected by the capacity check.
\<close>

theorem C1_three_participants_three_matches:
  "(\<exists>fixtures.
      generateSingleEliminationFixtures exampleUUID (exampleTournament FormatSingleElimination 2)
        (exampleParticipants 3) = Inr fixtures \<and>
      length fixtures = 3 \<and> m_RoundNumber ` set fixtures = {1, 2}) \<and>
   length (exampleParticipants 3) - 1 = 2 \<and>
   calculateTournamentCapacity exampleFloat64 (exampleRequest FormatSingleElimination 2) = Inr 3 \<and>
   GenerateFixtures exampleCollaborators (exampleTournament FormatSingleElimination 2)
     (exampleParticipants 3) ''random'' [] = Inl (ErrCapacityExceeded 3 2)"
proof (intro conjI)
  have n: "length (exampleParticipants 3) = 3" by (simp add: exampleParticipants_def)
  have R: "ceillog2 3 = 2" by code_simp
  have n2: "2 \<le> length (exampleParticipants 3)" using n by simp
  from single_elimination_count [OF n2, of exampleUUID "exampleTournament FormatSingleElimination 2"]
  show "\<exists>fixtures.
      generateSingleEliminationFixtures exampleUUID (exampleTournament FormatSingleElimination 2)
        (exampleParticipants 3) = Inr fixtures \<and>
      length fixtures = 3 \<and> m_RoundNumber ` set fixtures = {1, 2}"
    unfolding n R by (auto simp: atLeastAtMost_insertL [symmetric] numeral_2_eq_2)
  show "length (exampleParticipants 3) - 1 = 2" using n by simp
  show "calculateTournamentCapacity exampleFloat64 (exampleRequest FormatSingleElimination 2) = Inr 3"
    by (simp add: example_capacity)
  show "GenerateFixtures exampleCollaborators (exampleTournament FormatSingleElimination 2)
     (exampleParticipants 3) ''random'' [] = Inl (ErrCapacityExceeded 3 2)"
    by code_simp
qed

subsection \<open>Progression links\<close>

lemma next_setNext:
  "j < length ms \<Longrightarrow>
   m_NextMatchID (setNext src tgt ms ! j) =
     (if j = src then Some (m_ID (ms ! tgt)) else m_NextMatchID (ms ! j))"
  by (simp add: setNext_def nth_list_update)

lemma id_unlinked_nth:
  assumes "map unlinked ms' = map unlinked ms" "x < length ms"
  shows "m_ID (ms' ! x) = m_ID (ms ! x)"
proof -
  have "length ms' = length ms" using assms(1) by (metis length_map)
  then have "unlinked (ms' ! x) = unlinked (ms ! x)"
    using assms by (metis nth_map)
  then show ?thesis by (rule unlinked_eq_fields(4))
qed

lemma length_linkStep: "length (linkStep cur nxt i ms) = length ms"
  by (simp add: linkStep_def Let_def length_setNext)

lemma length_fold_linkStep: "length (fold (linkStep cur nxt) is ms) = length ms"
  by (induction "is" arbitrary: ms) (simp_all add: length_linkStep)

lemma next_linkStep:
  assumes j: "j < length ms" and i: "i + 1 < length cur \<longrightarrow> cur ! (i + 1) \<noteq> cur ! i"
    and cur: "i < length cur" "cur ! i < length ms"
    and tgt: "i div 2 < length nxt \<longrightarrow> nxt ! (i div 2) < length ms"
  shows "m_NextMatchID (linkStep cur nxt i ms ! j) =
     (if i div 2 < length nxt \<and> (j = cur ! i \<or> (i + 1 < length cur \<and> j = cur ! (i + 1)))
      then Some (m_ID (ms ! (nxt ! (i div 2))))
      else m_NextMatchID (ms ! j))"
proof (cases "i div 2 < length nxt")
  case False
  then show ?thesis by (simp add: linkStep_def)
next
  case True
  let ?t = "nxt ! (i div 2)"
  let ?ms1 = "setNext (cur ! i) ?t ms"
  have t: "?t < length ms" using tgt True by simp
  have id1: "m_ID (?ms1 ! ?t) = m_ID (ms ! ?t)"
    by (rule id_unlinked_nth [OF unlinked_setNext t])
  have j1: "j < length ?ms1" using j by (simp add: length_setNext)
  show ?thesis
  proof (cases "i + 1 < length cur")
    case False
    then show ?thesis using True by (simp add: linkStep_def Let_def next_setNext [OF j])
  next
    case Suc: True
    then have eq: "linkStep cur nxt i ms = setNext (cur ! (i + 1)) ?t ?ms1"
      using True by (simp add: linkStep_def Let_def)
    have a: "m_NextMatchID (setNext (cur ! (i + 1)) ?t ?ms1 ! j) =
        (if j = cur ! (i + 1) then Some (m_ID (?ms1 ! ?t)) else m_NextMatchID (?ms1 ! j))"
      by (rule next_setNext [OF j1])
    have b: "m_NextMatchID (?ms1 ! j) =
        (if j = cur ! i then Some (m_ID (ms ! ?t)) else m_NextMatchID (ms ! j))"
      by (rule next_setNext [OF j])
    show ?thesis
      unfolding eq a b id1 using True Suc by simp
  qed
qed

lemma next_fold_linkStep:
  assumes d: "distinct cur" and lt: "\<forall>x \<in> set cur. x < length ms"
    and nx: "\<forall>x \<in> set nxt. x < length ms"
    and K: "2 * K \<le> length cur + 1" and j: "j < length ms"
  shows "m_NextMatchID (fold (linkStep cur nxt) (map (\<lambda>k. 2 * k) [0..<K]) ms ! j) =
     (if \<exists>p < length cur. p < 2 * K \<and> cur ! p = j \<and> p div 2 < length nxt
      then Some (m_ID (ms ! (nxt ! ((THE p. p < length cur \<and> cur ! p = j) div 2))))
      else m_NextMatchID (ms ! j))"
  using K
proof (induction K)
  case 0
  then show ?case by simp
next
  case (Suc K)
  let ?res = "fold (linkStep cur nxt) (map (\<lambda>k. 2 * k) [0..<K]) ms"
  have un: "map unlinked ?res = map unlinked ms" by (rule unlinked_fold_linkStep)
  have len: "length ?res = length ms" by (rule length_fold_linkStep)
  have i: "2 * K < length cur" using Suc.prems by simp
  have IH: "m_NextMatchID (?res ! j) =
     (if \<exists>p < length cur. p < 2 * K \<and> cur ! p = j \<and> p div 2 < length nxt
      then Some (m_ID (ms ! (nxt ! ((THE p. p < length cur \<and> cur ! p = j) div 2))))
      else m_NextMatchID (ms ! j))"
    using Suc by simp
  have the: "(THE q. q < length cur \<and> cur ! q = cur ! p) = p" if "p < length cur" for p
    using that d by (auto simp: nth_eq_iff_index_eq)
  have step: "m_NextMatchID (linkStep cur nxt (2 * K) ?res ! j) =
     (if (2 * K) div 2 < length nxt \<and>
         (j = cur ! (2 * K) \<or> (2 * K + 1 < length cur \<and> j = cur ! (2 * K + 1)))
      then Some (m_ID (?res ! (nxt ! ((2 * K) div 2))))
      else m_NextMatchID (?res ! j))"
  proof (rule next_linkStep)
    show "j < length ?res" using j len by simp
    show "2 * K + 1 < length cur \<longrightarrow> cur ! (2 * K + 1) \<noteq> cur ! (2 * K)"
      using d by (auto simp: nth_eq_iff_index_eq)
    show "2 * K < length cur" by (rule i)
    show "cur ! (2 * K) < length ?res" using lt i len by simp
    show "2 * K div 2 < length nxt \<longrightarrow> nxt ! (2 * K div 2) < length ?res"
      using nx len by simp
  qed
  have idK: "m_ID (?res ! (nxt ! K)) = m_ID (ms ! (nxt ! K))" if "K < length nxt"
    using that nx by (intro id_unlinked_nth [OF un]) simp
  let ?C = "K < length nxt \<and> (j = cur ! (2 * K) \<or> (2 * K + 1 < length cur \<and> j = cur ! (2 * K + 1)))"
  have step': "m_NextMatchID (linkStep cur nxt (2 * K) ?res ! j) =
     (if ?C then Some (m_ID (ms ! (nxt ! K))) else m_NextMatchID (?res ! j))"
    unfolding step by (cases "K < length nxt") (simp_all add: idK)
  have fold_Suc: "fold (linkStep cur nxt) (map (\<lambda>k. 2 * k) [0..<Suc K]) ms =
        linkStep cur nxt (2 * K) ?res"
    by simp
  show ?case
  proof (cases ?C)
    case True
    then obtain p where p: "p < length cur" "cur ! p = j" "p = 2 * K \<or> p = 2 * K + 1"
      using i by auto
    then have pd: "p div 2 = K" by auto
    have ex: "\<exists>p < length cur. p < 2 * Suc K \<and> cur ! p = j \<and> p div 2 < length nxt"
      using p pd True by (intro exI [of _ p]) auto
    have thep: "(THE q. q < length cur \<and> cur ! q = j) = p"
      using the [OF p(1)] p(2) by simp
    have "m_NextMatchID (linkStep cur nxt (2 * K) ?res ! j) = Some (m_ID (ms ! (nxt ! K)))"
      by (simp only: step' True if_True simp_thms)
    also have "\<dots> = (if \<exists>p < length cur. p < 2 * Suc K \<and> cur ! p = j \<and> p div 2 < length nxt
      then Some (m_ID (ms ! (nxt ! ((THE p. p < length cur \<and> cur ! p = j) div 2))))
      else m_NextMatchID (ms ! j))"
      using ex by (simp only: thep pd if_True)
    finally show ?thesis by (simp only: fold_Suc)
  next
    case False
    have exeq: "(\<exists>p < length cur. p < 2 * Suc K \<and> cur ! p = j \<and> p div 2 < length nxt) =
          (\<exists>p < length cur. p < 2 * K \<and> cur ! p = j \<and> p div 2 < length nxt)"
    proof
      assume "\<exists>p < length cur. p < 2 * Suc K \<and> cur ! p = j \<and> p div 2 < length nxt"
      then obtain p where p: "p < length cur" "p < 2 * Suc K" "cur ! p = j" "p div 2 < length nxt"
        by blast
      have "p < 2 * K"
      proof (rule ccontr)
        assume "\<not> p < 2 * K"
        then consider "p = 2 * K" | "p = 2 * K + 1" using p(2) by atomize_elim arith
        then show False
        proof cases
          case 1
          then have "K < length nxt" "j = cur ! (2 * K)" using p by simp_all
          then show False using False by simp
        next
          case 2
          then have "K < length nxt" "2 * K + 1 < length cur" "j = cur ! (2 * K + 1)"
            using p by simp_all
          then show False using False by simp
        qed
      qed
      then show "\<exists>p < length cur. p < 2 * K \<and> cur ! p = j \<and> p div 2 < length nxt"
        using p by blast
    next
      assume "\<exists>p < length cur. p < 2 * K \<and> cur ! p = j \<and> p div 2 < length nxt"
      then show "\<exists>p < length cur. p < 2 * Suc K \<and> cur ! p = j \<and> p div 2 < length nxt"
        by auto
    qed
    have "m_NextMatchID (linkStep cur nxt (2 * K) ?res ! j) = m_NextMatchID (?res ! j)"
      by (simp only: step' False if_False simp_thms)
    also note IH
    finally show ?thesis by (simp only: fold_Suc exeq)
  qed
qed

lemma next_linkRound:
  assumes d: "distinct cur" and lt: "\<forall>x \<in> set cur. x < length ms"
    and nx: "\<forall>x \<in> set nxt. x < length ms" and j: "j < length ms"
  shows "m_NextMatchID (linkRound cur nxt ms ! j) =
     (if \<exists>p < length cur. cur ! p = j \<and> p div 2 < length nxt
      then Some (m_ID (ms ! (nxt ! ((THE p. p < length cur \<and> cur ! p = j) div 2))))
      else m_NextMatchID (ms ! j))"
proof -
  let ?K = "(length cur + 1) div 2"
  have K: "2 * ?K \<le> length cur + 1" by simp
  have "(\<exists>p < length cur. p < 2 * ?K \<and> cur ! p = j \<and> p div 2 < length nxt) =
        (\<exists>p < length cur. cur ! p = j \<and> p div 2 < length nxt)"
  proof -
    have "p < 2 * ?K" if "p < length cur" for p using that by arith
    then show ?thesis by blast
  qed
  then show ?thesis
    using next_fold_linkStep [OF d lt nx K j] by (simp only: linkRound_def)
qed

lemma length_linkRound: "length (linkRound cur nxt ms) = length ms"
  by (simp add: linkRound_def length_fold_linkStep)

lemma distinct_matchesByRound: "distinct (matchesByRound ms r)"
  by (simp add: matchesByRound_def)

lemma set_matchesByRound:
  "set (matchesByRound ms r) = {k. k < length ms \<and> m_RoundNumber (ms ! k) = r}"
  by (auto simp: matchesByRound_def)

lemma matchesByRound_nth:
  assumes "p < length (matchesByRound ms r)"
  shows "matchesByRound ms r ! p < length ms"
    and "m_RoundNumber (ms ! (matchesByRound ms r ! p)) = r"
proof -
  have "matchesByRound ms r ! p \<in> set (matchesByRound ms r)"
    using assms by (rule nth_mem)
  then show "matchesByRound ms r ! p < length ms"
    and "m_RoundNumber (ms ! (matchesByRound ms r ! p)) = r"
    by (simp_all add: set_matchesByRound)
qed

lemma the_position:
  assumes "distinct xs" "p < length xs"
  shows "(THE q. q < length xs \<and> xs ! q = xs ! p) = p"
  using assms by (auto simp: nth_eq_iff_index_eq)

lemma next_fold_linkRound:
  assumes j: "j < length ms0"
    and p: "p < length (matchesByRound ms0 (m_RoundNumber (ms0 ! j)))"
      "matchesByRound ms0 (m_RoundNumber (ms0 ! j)) ! p = j"
  shows "m_NextMatchID
           (fold (\<lambda>r. linkRound (matchesByRound ms0 (int r)) (matchesByRound ms0 (int r + 1)))
              [1..<R] ms0 ! j) =
     (if 1 \<le> m_RoundNumber (ms0 ! j) \<and> m_RoundNumber (ms0 ! j) < int R \<and>
         p div 2 < length (matchesByRound ms0 (m_RoundNumber (ms0 ! j) + 1))
      then Some (m_ID (ms0 ! (matchesByRound ms0 (m_RoundNumber (ms0 ! j) + 1) ! (p div 2))))
      else m_NextMatchID (ms0 ! j))"
proof (induction R)
  case 0
  then show ?case by auto
next
  case (Suc R)
  let ?r = "m_RoundNumber (ms0 ! j)"
  let ?f = "\<lambda>r. linkRound (matchesByRound ms0 (int r)) (matchesByRound ms0 (int r + 1))"
  let ?res = "fold ?f [1..<R] ms0"
  show ?case
  proof (cases "R = 0")
    case True
    then show ?thesis by auto
  next
    case False
    then have upt: "[1..<Suc R] = [1..<R] @ [R]" by simp
    let ?cur = "matchesByRound ms0 (int R)"
    let ?nxt = "matchesByRound ms0 (int R + 1)"
    have un: "map unlinked ?res = map unlinked ms0" by (rule unlinked_fold_linkRound)
    then have len: "length ?res = length ms0" by (metis length_map)
    have step: "m_NextMatchID (linkRound ?cur ?nxt ?res ! j) =
       (if \<exists>q < length ?cur. ?cur ! q = j \<and> q div 2 < length ?nxt
        then Some (m_ID (?res ! (?nxt ! ((THE q. q < length ?cur \<and> ?cur ! q = j) div 2))))
        else m_NextMatchID (?res ! j))"
    proof (rule next_linkRound)
      show "distinct ?cur" by (rule distinct_matchesByRound)
      show "\<forall>x \<in> set ?cur. x < length ?res"
        unfolding len by (simp add: set_matchesByRound)
      show "\<forall>x \<in> set ?nxt. x < length ?res"
        unfolding len by (simp add: set_matchesByRound)
      show "j < length ?res" using j len by simp
    qed
    have fold_eq: "fold ?f [1..<Suc R] ms0 = linkRound ?cur ?nxt ?res"
      by (simp only: upt fold_append fold_simps o_apply)
    show ?thesis
    proof (cases "?r = int R")
      case r: True
      have the: "(THE q. q < length ?cur \<and> ?cur ! q = j) = p"
        using the_position [OF distinct_matchesByRound, of p ms0 ?r] p unfolding r by simp
      have ex: "(\<exists>q < length ?cur. ?cur ! q = j \<and> q div 2 < length ?nxt) = (p div 2 < length ?nxt)"
      proof
        assume "\<exists>q < length ?cur. ?cur ! q = j \<and> q div 2 < length ?nxt"
        then obtain q where q: "q < length ?cur" "?cur ! q = j" "q div 2 < length ?nxt" by blast
        have "q = p"
          using q(1,2) p distinct_matchesByRound [of ms0 "int R"] unfolding r
          by (metis nth_eq_iff_index_eq)
        then show "p div 2 < length ?nxt" using q(3) by simp
      next
        assume "p div 2 < length ?nxt"
        then show "\<exists>q < length ?cur. ?cur ! q = j \<and> q div 2 < length ?nxt"
          using p unfolding r by blast
      qed
      show ?thesis
      proof (cases "p div 2 < length ?nxt")
        case True
        have "?nxt ! (p div 2) < length ms0"
          by (rule matchesByRound_nth(1) [OF True])
        then have id: "m_ID (?res ! (?nxt ! (p div 2))) = m_ID (ms0 ! (?nxt ! (p div 2)))"
          by (rule id_unlinked_nth [OF un])
        have "m_NextMatchID (linkRound ?cur ?nxt ?res ! j) =
              Some (m_ID (ms0 ! (?nxt ! (p div 2))))"
          using True by (simp only: step ex the id if_True)
        then show ?thesis
          unfolding fold_eq using True False r by simp
      next
        case nolink: False
        have "m_NextMatchID (linkRound ?cur ?nxt ?res ! j) = m_NextMatchID (?res ! j)"
          using nolink by (simp only: step ex if_False)
        also have "\<dots> = m_NextMatchID (ms0 ! j)"
          using Suc.IH r by simp
        finally show ?thesis
          unfolding fold_eq using nolink r by simp
      qed
    next
      case r: False
      have "\<not> (\<exists>q < length ?cur. ?cur ! q = j \<and> q div 2 < length ?nxt)"
      proof
        assume "\<exists>q < length ?cur. ?cur ! q = j \<and> q div 2 < length ?nxt"
        then obtain q where q: "q < length ?cur" "?cur ! q = j" by blast
        from matchesByRound_nth(2) [OF q(1)] q(2) r show False by simp
      qed
      then have "m_NextMatchID (linkRound ?cur ?nxt ?res ! j) = m_NextMatchID (?res ! j)"
        by (simp only: step if_False)
      then show ?thesis
        unfolding fold_eq using Suc.IH r by auto
    qed
  qed
qed

lemma next_linkBracketProgression:
  assumes j: "j < length ms0"
    and p: "p < length (matchesByRound ms0 (m_RoundNumber (ms0 ! j)))"
      "matchesByRound ms0 (m_RoundNumber (ms0 ! j)) ! p = j"
  shows "m_NextMatchID (linkBracketProgression ms0 R ! j) =
     (if 1 \<le> m_RoundNumber (ms0 ! j) \<and> m_RoundNumber (ms0 ! j) < int R \<and>
         p div 2 < length (matchesByRound ms0 (m_RoundNumber (ms0 ! j) + 1))
      then Some (m_ID (ms0 ! (matchesByRound ms0 (m_RoundNumber (ms0 ! j) + 1) ! (p div 2))))
      else m_NextMatchID (ms0 ! j))"
  unfolding linkBracketProgression_def by (rule next_fold_linkRound [OF j p])

lemma position_exists:
  assumes "j < length ms0"
  shows "\<exists>p < length (matchesByRound ms0 (m_RoundNumber (ms0 ! j))).
           matchesByRound ms0 (m_RoundNumber (ms0 ! j)) ! p = j"
proof -
  have "j \<in> set (matchesByRound ms0 (m_RoundNumber (ms0 ! j)))"
    using assms by (simp add: set_matchesByRound)
  then show ?thesis by (simp add: in_set_conv_nth)
qed

lemma link_targets:
  assumes ids: "distinct (map m_ID ms0)" and none: "\<forall>m \<in> set ms0. m_NextMatchID m = None"
    and j: "j < length ms0"
    and nx: "m_NextMatchID (linkBracketProgression ms0 R ! j) = Some x"
  shows "\<exists>p q. p < length (matchesByRound ms0 (m_RoundNumber (ms0 ! j))) \<and>
           matchesByRound ms0 (m_RoundNumber (ms0 ! j)) ! p = j \<and>
           q < length (matchesByRound ms0 (m_RoundNumber (ms0 ! j) + 1)) \<and>
           q = p div 2 \<and>
           x = m_ID (ms0 ! (matchesByRound ms0 (m_RoundNumber (ms0 ! j) + 1) ! q))"
proof -
  from position_exists [OF j] obtain p where
    p: "p < length (matchesByRound ms0 (m_RoundNumber (ms0 ! j)))"
       "matchesByRound ms0 (m_RoundNumber (ms0 ! j)) ! p = j" by blast
  have n0: "m_NextMatchID (ms0 ! j) = None" using none j by simp
  have "Some x =
     (if 1 \<le> m_RoundNumber (ms0 ! j) \<and> m_RoundNumber (ms0 ! j) < int R \<and>
         p div 2 < length (matchesByRound ms0 (m_RoundNumber (ms0 ! j) + 1))
      then Some (m_ID (ms0 ! (matchesByRound ms0 (m_RoundNumber (ms0 ! j) + 1) ! (p div 2))))
      else None)"
    using next_linkBracketProgression [OF j p, of R] nx n0 by simp
  then have "p div 2 < length (matchesByRound ms0 (m_RoundNumber (ms0 ! j) + 1))"
    and "x = m_ID (ms0 ! (matchesByRound ms0 (m_RoundNumber (ms0 ! j) + 1) ! (p div 2)))"
    by (simp_all split: if_splits)
  with p show ?thesis by blast
qed

lemma link_properties:
  fixes ms0 :: "Match list" and R :: nat
  assumes ids: "distinct (map m_ID ms0)" and none: "\<forall>m \<in> set ms0. m_NextMatchID m = None"
  defines "fs \<equiv> linkBracketProgression ms0 R"
  shows "distinct (map m_ID fs)"
    and "\<forall>j < length fs. \<forall>x. m_NextMatchID (fs ! j) = Some x \<longrightarrow>
           (\<exists>j' < length fs. m_ID (fs ! j') = x \<and>
              m_RoundNumber (fs ! j') = m_RoundNumber (fs ! j) + 1)"
    and "\<forall>j' < length fs.
           card {j. j < length fs \<and> m_NextMatchID (fs ! j) = Some (m_ID (fs ! j'))} \<le> 2"
proof -
  have un: "map unlinked fs = map unlinked ms0"
    unfolding fs_def by (rule unlinked_linkBracketProgression)
  have len: "length fs = length ms0"
    unfolding fs_def by (rule length_linkBracketProgression)
  have unk: "unlinked (fs ! k) = unlinked (ms0 ! k)" if "k < length ms0" for k
    using un len that by (metis nth_map)
  have idk: "m_ID (fs ! k) = m_ID (ms0 ! k)" if "k < length ms0" for k
    by (rule unlinked_eq_fields(4) [OF unk [OF that]])
  have rk: "m_RoundNumber (fs ! k) = m_RoundNumber (ms0 ! k)" if "k < length ms0" for k
    by (rule unlinked_eq_fields(1) [OF unk [OF that]])
  have "map m_ID fs = map m_ID ms0"
    using len idk by (intro nth_equalityI) simp_all
  then show "distinct (map m_ID fs)" using ids by simp
  have id_inj: "a = b" if "a < length ms0" "b < length ms0" "m_ID (ms0 ! a) = m_ID (ms0 ! b)" for a b
    using that ids by (metis (no_types, lifting) length_map nth_eq_iff_index_eq nth_map)
  show "\<forall>j < length fs. \<forall>x. m_NextMatchID (fs ! j) = Some x \<longrightarrow>
           (\<exists>j' < length fs. m_ID (fs ! j') = x \<and>
              m_RoundNumber (fs ! j') = m_RoundNumber (fs ! j) + 1)"
  proof (intro allI impI)
    fix j x assume j: "j < length fs" and nx: "m_NextMatchID (fs ! j) = Some x"
    have j0: "j < length ms0" using j len by simp
    from link_targets [OF ids none j0 nx [unfolded fs_def]] obtain q where
      q: "q < length (matchesByRound ms0 (m_RoundNumber (ms0 ! j) + 1))"
         "x = m_ID (ms0 ! (matchesByRound ms0 (m_RoundNumber (ms0 ! j) + 1) ! q))"
      by blast
    let ?j' = "matchesByRound ms0 (m_RoundNumber (ms0 ! j) + 1) ! q"
    have j': "?j' < length ms0" "m_RoundNumber (ms0 ! ?j') = m_RoundNumber (ms0 ! j) + 1"
      using matchesByRound_nth [OF q(1)] by simp_all
    show "\<exists>j' < length fs. m_ID (fs ! j') = x \<and>
              m_RoundNumber (fs ! j') = m_RoundNumber (fs ! j) + 1"
      using j' q(2) idk [OF j'(1)] rk [OF j'(1)] rk [OF j0] len by (intro exI [of _ ?j']) simp
  qed
  show "\<forall>j' < length fs.
           card {j. j < length fs \<and> m_NextMatchID (fs ! j) = Some (m_ID (fs ! j'))} \<le> 2"
  proof (intro allI impI)
    fix j' assume j': "j' < length fs"
    then have j'0: "j' < length ms0" using len by simp
    let ?r' = "m_RoundNumber (ms0 ! j')"
    from position_exists [OF j'0] obtain q where
      q: "q < length (matchesByRound ms0 ?r')" "matchesByRound ms0 ?r' ! q = j'" by blast
    let ?cur = "matchesByRound ms0 (?r' - 1)"
    let ?S = "{j. j < length fs \<and> m_NextMatchID (fs ! j) = Some (m_ID (fs ! j'))}"
    have "?S \<subseteq> {?cur ! (2 * q), ?cur ! (2 * q + 1)}"
    proof
      fix j assume "j \<in> ?S"
      then have j: "j < length ms0" and nx: "m_NextMatchID (fs ! j) = Some (m_ID (ms0 ! j'))"
        using len idk [OF j'0] by simp_all
      let ?r = "m_RoundNumber (ms0 ! j)"
      from link_targets [OF ids none j nx [unfolded fs_def]] obtain p where
        p: "p < length (matchesByRound ms0 ?r)" "matchesByRound ms0 ?r ! p = j"
           "p div 2 < length (matchesByRound ms0 (?r + 1))"
           "m_ID (ms0 ! j') = m_ID (ms0 ! (matchesByRound ms0 (?r + 1) ! (p div 2)))"
        by blast
      let ?t = "matchesByRound ms0 (?r + 1) ! (p div 2)"
      have t: "?t < length ms0" "m_RoundNumber (ms0 ! ?t) = ?r + 1"
        using matchesByRound_nth [OF p(3)] by simp_all
      have tj: "?t = j'" by (rule id_inj [OF t(1) j'0 p(4) [symmetric]])
      then have r: "?r + 1 = ?r'" using t(2) by simp
      have "p div 2 = q"
        using p(3) q tj distinct_matchesByRound [of ms0 ?r'] unfolding r
        by (metis nth_eq_iff_index_eq)
      then have "p = 2 * q \<or> p = 2 * q + 1" by arith
      moreover have "?r = ?r' - 1" using r by simp
      ultimately have "j = ?cur ! (2 * q) \<or> j = ?cur ! (2 * q + 1)"
        using p(2) by auto
      then show "j \<in> {?cur ! (2 * q), ?cur ! (2 * q + 1)}" by simp
    qed
    then have "card ?S \<le> card {?cur ! (2 * q), ?cur ! (2 * q + 1)}"
      by (intro card_mono) simp_all
    also have "\<dots> \<le> 2" by (simp add: card_insert_if)
    finally show "card ?S \<le> 2" .
  qed
qed

lemma seMatch_list_ids:
  "map m_ID (map (\<lambda>(k, ri). seMatch uuid t bp pp n k ri) (enumerate 0 slots)) =
     map uuid [0..<length slots]"
proof -
  have "map m_ID (map (\<lambda>(k, ri). seMatch uuid t bp pp n k ri) (enumerate 0 slots)) =
        map (\<lambda>x. uuid (fst x)) (enumerate 0 slots)"
    by (simp add: o_def split_def seMatch_def)
  also have "\<dots> = map uuid [0..<0 + length slots]"
    by (rule map_enumerate_fst)
  finally show ?thesis by simp
qed

lemma seMatch_list_unlinked:
  "\<forall>m \<in> set (map (\<lambda>(k, ri). seMatch uuid t bp pp n k ri) (enumerate 0 slots)).
     m_NextMatchID m = None"
  by (auto simp: seMatch_def)

text \<open>
  Claim C6: in the fixtures of the single-elimination generator (the identifiers that
  \<^verbatim>\<open>GenerateUUID\<close> hands out being pairwise different), a progression link that is set names
  exactly one fixture, and that fixture lies in the next round; two matches of one round
  with the same link therefore feed the same match of the next round; and no match is the
  target of more than two links.
\<close>

theorem C6_progression_links:
  "2 \<le> length participants \<Longrightarrow> inj uuid \<Longrightarrow>
   \<exists>fixtures.
     generateSingleEliminationFixtures uuid tournament participants = Inr fixtures \<and>
     (\<forall>m \<in> set fixtures. \<forall>target. m_NextMatchID m = Some target \<longrightarrow>
        (\<exists>m' \<in> set fixtures.
           m_ID m' = target \<and> m_RoundNumber m' = m_RoundNumber m + 1 \<and>
           (\<forall>m'' \<in> set fixtures. m_ID m'' = target \<longrightarrow> m'' = m'))) \<and>
     (\<forall>m1 \<in> set fixtures. \<forall>m2 \<in> set fixtures. \<forall>m1' \<in> set fixtures. \<forall>m2' \<in> set fixtures.
        m_RoundNumber m1 = m_RoundNumber m2 \<and>
        m_NextMatchID m1 = Some (m_ID m1') \<and> m_NextMatchID m2 = Some (m_ID m2') \<and>
        m_NextMatchID m1 = m_NextMatchID m2 \<longrightarrow>
        m1' = m2' \<and> m_RoundNumber m1' = m_RoundNumber m1 + 1) \<and>
     (\<forall>m' \<in> set fixtures.
        length (filter (\<lambda>m. m_NextMatchID m = Some (m_ID m')) fixtures) \<le> 2)"
proof -
  assume n: "2 \<le> length participants" and inj: "inj uuid"
  let ?R = "ceillog2 (length participants)"
  from generate_single_elimination [OF n, of uuid tournament] obtain bp where
    gen: "generateSingleEliminationFixtures uuid tournament participants =
             Inr (linkBracketProgression
                    (map (\<lambda>(k, ri). seMatch uuid tournament bp (placeParticipants participants)
                                      (length participants) k ri)
                       (enumerate 0 (seSlots ?R))) ?R)"
    by blast
  define ms0 where "ms0 = map (\<lambda>(k, ri). seMatch uuid tournament bp (placeParticipants participants)
                                      (length participants) k ri) (enumerate 0 (seSlots ?R))"
  define fs where "fs = linkBracketProgression ms0 ?R"
  have ids0: "distinct (map m_ID ms0)"
    unfolding ms0_def seMatch_list_ids
    using inj by (simp add: distinct_map inj_on_def inj_def)
  have none: "\<forall>m \<in> set ms0. m_NextMatchID m = None"
    unfolding ms0_def by (rule seMatch_list_unlinked)
  note lp = link_properties [OF ids0 none, of ?R, folded fs_def]
  have uniq: "a = b" if "a \<in> set fs" "b \<in> set fs" "m_ID a = m_ID b" for a b
    using that lp(1) by (meson distinct_map inj_onD)
  have A: "\<forall>m \<in> set fs. \<forall>target. m_NextMatchID m = Some target \<longrightarrow>
        (\<exists>m' \<in> set fs.
           m_ID m' = target \<and> m_RoundNumber m' = m_RoundNumber m + 1 \<and>
           (\<forall>m'' \<in> set fs. m_ID m'' = target \<longrightarrow> m'' = m'))"
  proof (intro ballI allI impI)
    fix m target assume m: "m \<in> set fs" and nx: "m_NextMatchID m = Some target"
    from m obtain j where j: "j < length fs" "fs ! j = m" by (auto simp: in_set_conv_nth)
    from lp(2) j nx obtain j' where j': "j' < length fs" "m_ID (fs ! j') = target"
      "m_RoundNumber (fs ! j') = m_RoundNumber m + 1" by blast
    have mem: "fs ! j' \<in> set fs" using j'(1) by simp
    have "\<forall>m'' \<in> set fs. m_ID m'' = target \<longrightarrow> m'' = fs ! j'"
      using uniq [OF _ mem] j'(2) by simp
    with mem j'(2,3) show "\<exists>m' \<in> set fs.
           m_ID m' = target \<and> m_RoundNumber m' = m_RoundNumber m + 1 \<and>
           (\<forall>m'' \<in> set fs. m_ID m'' = target \<longrightarrow> m'' = m')"
      by blast
  qed
  have B: "\<forall>m1 \<in> set fs. \<forall>m2 \<in> set fs. \<forall>m1' \<in> set fs. \<forall>m2' \<in> set fs.
        m_RoundNumber m1 = m_RoundNumber m2 \<and>
        m_NextMatchID m1 = Some (m_ID m1') \<and> m_NextMatchID m2 = Some (m_ID m2') \<and>
        m_NextMatchID m1 = m_NextMatchID m2 \<longrightarrow>
        m1' = m2' \<and> m_RoundNumber m1' = m_RoundNumber m1 + 1"
  proof (intro ballI impI)
    fix m1 m2 m1' m2'
    assume mem: "m1 \<in> set fs" "m2 \<in> set fs" "m1' \<in> set fs" "m2' \<in> set fs"
      and h: "m_RoundNumber m1 = m_RoundNumber m2 \<and>
        m_NextMatchID m1 = Some (m_ID m1') \<and> m_NextMatchID m2 = Some (m_ID m2') \<and>
        m_NextMatchID m1 = m_NextMatchID m2"
    have "m_ID m1' = m_ID m2'" using h by (metis option.inject)
    then have eq: "m1' = m2'" by (rule uniq [OF mem(3,4)])
    from A mem(1) h obtain m' where m': "m' \<in> set fs" "m_ID m' = m_ID m1'"
      "m_RoundNumber m' = m_RoundNumber m1 + 1" by blast
    have "m' = m1'" by (rule uniq [OF m'(1) mem(3) m'(2)])
    with eq m'(3) show "m1' = m2' \<and> m_RoundNumber m1' = m_RoundNumber m1 + 1" by simp
  qed
  have C: "\<forall>m' \<in> set fs. length (filter (\<lambda>m. m_NextMatchID m = Some (m_ID m')) fs) \<le> 2"
  proof
    fix m' assume "m' \<in> set fs"
    then obtain j' where j': "j' < length fs" "fs ! j' = m'" by (auto simp: in_set_conv_nth)
    have "length (filter (\<lambda>m. m_NextMatchID m = Some (m_ID m')) fs) =
          card {j. j < length fs \<and> m_NextMatchID (fs ! j) = Some (m_ID m')}"
      by (rule length_filter_conv_card)
    also have "\<dots> \<le> 2" using lp(3) j' by blast
    finally show "length (filter (\<lambda>m. m_NextMatchID m = Some (m_ID m')) fs) \<le> 2" .
  qed
  have "generateSingleEliminationFixtures uuid tournament participants = Inr fs"
    unfolding fs_def ms0_def by (rule gen)
  with A B C show ?thesis by blast
qed

lemma inj_exampleUUID: "inj exampleUUID"
proof (rule injI)
  fix a b assume "exampleUUID a = exampleUUID b"
  then have "length (exampleUUID a) = length (exampleUUID b)" by simp
  then show "a = b" by (simp add: exampleUUID_def)
qed

theorem C6_progression_links_witness:
  "2 \<le> length (exampleParticipants 3) \<and> inj exampleUUID \<and>
   (\<exists>fixtures.
     generateSingleEliminationFixtures exampleUUID (exampleTournament FormatSingleElimination 4)
       (exampleParticipants 3) = Inr fixtures \<and>
     (\<forall>m \<in> set fixtures. \<forall>target. m_NextMatchID m = Some target \<longrightarrow>
        (\<exists>m' \<in> set fixtures.
           m_ID m' = target \<and> m_RoundNumber m' = m_RoundNumber m + 1 \<and>
           (\<forall>m'' \<in> set fixtures. m_ID m'' = target \<longrightarrow> m'' = m'))) \<and>
     (\<forall>m1 \<in> set fixtures. \<forall>m2 \<in> set fixtures. \<forall>m1' \<in> set fixtures. \<forall>m2' \<in> set fixtures.
        m_RoundNumber m1 = m_RoundNumber m2 \<and>
        m_NextMatchID m1 = Some (m_ID m1') \<and> m_NextMatchID m2 = Some (m_ID m2') \<and>
        m_NextMatchID m1 = m_NextMatchID m2 \<longrightarrow>
        m1' = m2' \<and> m_RoundNumber m1' = m_RoundNumber m1 + 1) \<and>
     (\<forall>m' \<in> set fixtures.
        length (filter (\<lambda>m. m_NextMatchID m = Some (m_ID m')) fixtures) \<le> 2))"
proof -
  have h1: "2 \<le> length (exampleParticipants 3)"
    by (simp add: exampleParticipants_def)
  show ?thesis
    by (intro conjI h1 inj_exampleUUID C6_progression_links [OF h1 inj_exampleUUID])
qed

end
